theory Spec2Isabelle
  imports Main
begin

section \<open>Exceptions and log records\<close>

text \<open>
  The exceptions of \<^verbatim>\<open>dreadfort/sinks/elasticsearch/sink.py\<close> and of the
  libraries it calls. \<open>QueueEmpty\<close> is the \<^verbatim>\<open>Empty\<close> that
  \<^verbatim>\<open>SimpleQueue.get(block=True, timeout=...)\<close> raises when the timeout passes with no
  message. \<open>KeyboardInterrupt\<close> and \<open>SystemExit\<close> are exceptions of Python that derive
  from \<^verbatim>\<open>BaseException\<close> but not from \<^verbatim>\<open>Exception\<close>.
\<close>

datatype exn =
    QueueEmpty
  | ConnectionError
  | TransportError
  | EncodeError
  | KeyError
  | TypeError
  | NameError
  | IndexError
  | KeyboardInterrupt
  | SystemExit

text \<open>What a clause \<^verbatim>\<open>except Exception\<close> catches.\<close>

fun is_Exception :: "exn \<Rightarrow> bool" where
  "is_Exception KeyboardInterrupt = False"
| "is_Exception SystemExit = False"
| "is_Exception _ = True"

text \<open>
  A record of the module's logger: \<^verbatim>\<open>_LOG.error(text)\<close> or
  \<^verbatim>\<open>_LOG.exception(ex)\<close>.
\<close>

datatype log_record = LogError string | LogException exn

section \<open>The consumer: messages, the broker and the backend\<close>

text \<open>
  A message handle as \<^verbatim>\<open>simple_queue.get\<close> returns it: the broker's delivery tag and
  the deserialised payload.
\<close>

datatype 'p message = Message (delivery_tag: nat) (payload: 'p)

text \<open>
  The outcome of one call \<^verbatim>\<open>simple_queue.get(block=True, timeout=bulk_timeout)\<close>: a
  message, or an exception (\<open>QueueEmpty\<close> on a timeout).
\<close>

datatype 'p pull = Delivered "'p message" | Raised exn

text \<open>
  The outcome of one bulk submission to the search backend: one success flag per item of
  the backend's answer, or an exception of the call.
\<close>

datatype reply = Items "bool list" | BulkRaised exn

text \<open>
  The state of one worker process and of its surroundings. \<open>pulls\<close> and \<open>replies\<close> are
  the outcomes of the pulls and of the bulk submissions still to come, in order; when one
  of them is empty the worker is suspended in that call and the observation ends.
  \<open>ack_raises\<close> gives, by delivery tag, the messages whose \<^verbatim>\<open>ack()\<close> raises, with the
  exception raised; the \<^verbatim>\<open>ack()\<close> of every other message reaches the broker.
  \<open>ack_list\<close> is the list the generator and the flusher share; \<open>stream_open\<close> says that
  the current generator has entered its \<^verbatim>\<open>with Connection(broker_url)\<close> block;
  \<open>connections\<close> counts the broker connections opened so far; \<open>acked\<close> lists the
  messages acknowledged against the broker and \<open>submitted\<close> the batches sent to the
  backend, both in order; \<open>log\<close> is the logger's output.
\<close>

record 'p worker =
  pulls :: "'p pull list"
  replies :: "reply list"
  ack_raises :: "(nat \<times> exn) list"
  ack_list :: "'p message list"
  stream_open :: bool
  connections :: nat
  acked :: "'p message list"
  submitted :: "'p list list"
  log :: "log_record list"

text \<open>
  What a generator, or a loop over one, does next: it yields a value, an exception leaves
  it, or it is suspended in a blocking call at the end of the observation.
\<close>

datatype 'a step = Yield 'a | Raise exn | Pending

text \<open>
  Entering \<^verbatim>\<open>with Connection(broker_url) as connection\<close> and creating the
  \<^verbatim>\<open>SimpleQueue\<close>: what the generator does when it is resumed for the first time.
\<close>

definition enter_Connection :: "'p worker \<Rightarrow> 'p worker" where
  "enter_Connection w =
     (if stream_open w then w
      else w\<lparr>stream_open := True, connections := Suc (connections w)\<rparr>)"

text \<open>
  \<^verbatim>\<open>get_queue_stream(ack_list)\<close>, resumed once: the first resumption opens the
  connection; then one pass of \<^verbatim>\<open>while True\<close>: pull, append the message to
  \<open>ack_list\<close>, yield its payload. No handler surrounds the pull, so what it raises leaves
  the generator.
\<close>

definition get_queue_stream :: "'p worker \<Rightarrow> 'p step \<times> 'p worker" where
  "get_queue_stream w =
     (let w1 = enter_Connection w
      in case pulls w1 of
           [] \<Rightarrow> (Pending, w1)
         | Delivered msg # rest \<Rightarrow>
             (Yield (payload msg), w1\<lparr>pulls := rest, ack_list := ack_list w1 @ [msg]\<rparr>)
         | Raised e # rest \<Rightarrow> (Raise e, w1\<lparr>pulls := rest\<rparr>))"

text \<open>
  Modelled from the spec: \<^verbatim>\<open>es_helpers.streaming_bulk\<close> is a library function, not part
  of the repository. It "internally buffers up to \<open>chunk_size\<close> documents, submits them as
  one network batch, and yields one result per input document, in the same order".
  \<open>next_chunk\<close> is the buffering: it resumes the action stream \<open>chunk_size\<close> times.
\<close>

fun next_chunk :: "nat \<Rightarrow> 'p list \<Rightarrow> 'p worker \<Rightarrow> 'p list step \<times> 'p worker" where
  "next_chunk 0 buf w = (Yield buf, w)"
| "next_chunk (Suc n) buf w =
     (case get_queue_stream w of
        (Yield p, w') \<Rightarrow> next_chunk n (buf @ [p]) w'
      | (Raise e, w') \<Rightarrow> (Raise e, w')
      | (Pending, w') \<Rightarrow> (Pending, w'))"

text \<open>
  Modelled from the spec: the submission of one buffered batch by
  \<^verbatim>\<open>streaming_bulk\<close>. The batch is recorded in \<open>submitted\<close> and the next outcome of
  \<open>replies\<close> is the backend's answer; the results are yielded in the answer's order.
\<close>

definition submit :: "'p list \<Rightarrow> 'p worker \<Rightarrow> bool list step \<times> 'p worker" where
  "submit chunk w =
     (case replies w of
        [] \<Rightarrow> (Pending, w)
      | Items oks # later \<Rightarrow> (Yield oks, w\<lparr>replies := later, submitted := submitted w @ [chunk]\<rparr>)
      | BulkRaised e # later \<Rightarrow> (Raise e, w\<lparr>replies := later, submitted := submitted w @ [chunk]\<rparr>))"

text \<open>
  The body of \<^verbatim>\<open>for response in bulker\<close>, run over the results of one batch:
  \<^verbatim>\<open>msg = ack_list.pop(0)\<close> (an \<open>IndexError\<close> on an empty list), then
  \<^verbatim>\<open>msg.ack()\<close> when the result's flag is true; an exception of \<^verbatim>\<open>ack()\<close>
  leaves the loop.
\<close>

fun ack_results :: "bool list \<Rightarrow> 'p worker \<Rightarrow> unit step \<times> 'p worker" where
  "ack_results [] w = (Yield (), w)"
| "ack_results (msg_ok # oks) w =
     (case ack_list w of
        [] \<Rightarrow> (Raise IndexError, w)
      | msg # rest \<Rightarrow>
          if msg_ok
          then (case map_of (ack_raises w) (delivery_tag msg) of
                  Some ex \<Rightarrow> (Raise ex, w\<lparr>ack_list := rest\<rparr>)
                | None \<Rightarrow> ack_results oks (w\<lparr>ack_list := rest, acked := acked w @ [msg]\<rparr>))
          else ack_results oks (w\<lparr>ack_list := rest\<rparr>))"

text \<open>
  One batch of the loop: buffer \<open>BULK_SIZE\<close> documents, submit them, process the results.
\<close>

definition flush_batch :: "nat \<Rightarrow> 'p worker \<Rightarrow> unit step \<times> 'p worker" where
  "flush_batch BULK_SIZE w =
     (case next_chunk BULK_SIZE [] w of
        (Yield chunk, w1) \<Rightarrow>
          (case submit chunk w1 of
             (Yield oks, w2) \<Rightarrow> ack_results oks w2
           | (Raise e, w2) \<Rightarrow> (Raise e, w2)
           | (Pending, w2) \<Rightarrow> (Pending, w2))
      | (Raise e, w1) \<Rightarrow> (Raise e, w1)
      | (Pending, w1) \<Rightarrow> (Pending, w1))"

text \<open>The number of outcomes the surroundings still hold.\<close>

definition events :: "'p worker \<Rightarrow> nat" where
  "events w = length (pulls w) + length (replies w)"

lemma get_queue_stream_replies:
  "replies (snd (get_queue_stream w)) = replies w"
  by (simp add: get_queue_stream_def enter_Connection_def Let_def split: list.splits pull.splits)

lemma get_queue_stream_pulls:
  "length (pulls (snd (get_queue_stream w))) \<le> length (pulls w)"
  by (simp add: get_queue_stream_def enter_Connection_def Let_def split: list.splits pull.splits)

lemma get_queue_stream_Raise_pulls:
  "get_queue_stream w = (Raise e, w') \<Longrightarrow> length (pulls w') < length (pulls w)"
  by (auto simp: get_queue_stream_def enter_Connection_def Let_def
      split: list.splits pull.splits if_splits)

lemma next_chunk_replies: "replies (snd (next_chunk n buf w)) = replies w"
proof (induction n arbitrary: buf w)
  case 0
  show ?case by simp
next
  case (Suc n)
  obtain r w' where g: "get_queue_stream w = (r, w')" by (cases "get_queue_stream w")
  have rw: "replies w' = replies w"
    using get_queue_stream_replies [of w] g by simp
  show ?case
    using g rw Suc.IH by (cases r) simp_all
qed

lemma next_chunk_pulls: "length (pulls (snd (next_chunk n buf w))) \<le> length (pulls w)"
proof (induction n arbitrary: buf w)
  case 0
  show ?case by simp
next
  case (Suc n)
  obtain r w' where g: "get_queue_stream w = (r, w')" by (cases "get_queue_stream w")
  have pw: "length (pulls w') \<le> length (pulls w)"
    using get_queue_stream_pulls [of w] g by simp
  show ?case
  proof (cases r)
    case (Yield p)
    then show ?thesis using g pw Suc.IH [of "buf @ [p]" w'] by simp
  qed (use g pw in simp_all)
qed

lemma next_chunk_Raise_pulls:
  "next_chunk n buf w = (Raise e, w') \<Longrightarrow> length (pulls w') < length (pulls w)"
proof (induction n arbitrary: buf w)
  case 0
  then show ?case by simp
next
  case (Suc n)
  obtain r w1 where g: "get_queue_stream w = (r, w1)" by (cases "get_queue_stream w")
  show ?case
  proof (cases r)
    case (Yield p)
    have "length (pulls w1) \<le> length (pulls w)"
      using get_queue_stream_pulls [of w] g by simp
    moreover have "length (pulls w') < length (pulls w1)"
      using Suc.IH [of "buf @ [p]" w1] Suc.prems g Yield by simp
    ultimately show ?thesis by simp
  next
    case (Raise e')
    then show ?thesis
      using Suc.prems g get_queue_stream_Raise_pulls [of w e' w1] by simp
  next
    case Pending
    then show ?thesis using Suc.prems g by simp
  qed
qed

lemma ack_results_events: "events (snd (ack_results oks w)) = events w"
  by (induction oks arbitrary: w) (simp_all add: events_def split: list.splits option.splits)

lemma submit_events:
  "submit chunk w = (r, w') \<Longrightarrow> r \<noteq> Pending \<Longrightarrow> events w' < events w"
  by (auto simp: submit_def events_def split: list.splits reply.splits)

lemma flush_batch_progress:
  assumes "flush_batch n w = (r, w')" and "r \<noteq> Pending"
  shows "events w' < events w"
proof -
  obtain r1 w1 where c: "next_chunk n [] w = (r1, w1)" by (cases "next_chunk n [] w")
  have p1: "length (pulls w1) \<le> length (pulls w)"
    using next_chunk_pulls [of n "[]" w] c by simp
  have r1: "replies w1 = replies w"
    using next_chunk_replies [of n "[]" w] c by simp
  show ?thesis
  proof (cases r1)
    case (Yield chunk)
    obtain r2 w2 where s: "submit chunk w1 = (r2, w2)" by (cases "submit chunk w1")
    have fb: "flush_batch n w = (case r2 of Yield oks \<Rightarrow> ack_results oks w2
                | Raise e \<Rightarrow> (Raise e, w2) | Pending \<Rightarrow> (Pending, w2))"
      using c Yield s by (simp add: flush_batch_def)
    have np: "r2 \<noteq> Pending"
      using fb assms by (cases r2) auto
    have e2: "events w2 < events w1"
      using submit_events [OF s np] .
    have e1: "events w1 \<le> events w"
      using p1 r1 by (simp add: events_def)
    show ?thesis
    proof (cases r2)
      case (Yield oks)
      have "ack_results oks w2 = (r, w')"
        using fb Yield assms(1) by simp
      then have "events w' = events w2"
        using ack_results_events [of oks w2] by simp
      then show ?thesis using e1 e2 by simp
    next
      case (Raise e)
      then show ?thesis using fb assms(1) e1 e2 by simp
    next
      case Pending
      then show ?thesis using np by simp
    qed
  next
    case (Raise e)
    have "w' = w1" using c Raise assms(1) by (simp add: flush_batch_def)
    moreover have "length (pulls w1) < length (pulls w)"
      using next_chunk_Raise_pulls [of n "[]" w e w1] c Raise by simp
    ultimately show ?thesis using r1 by (simp add: events_def)
  next
    case Pending
    then show ?thesis using c assms by (simp add: flush_batch_def)
  qed
qed

text \<open>
  The loop \<^verbatim>\<open>for response in bulker\<close> of \<open>flush_to_es\<close>, batch after batch. The
  action stream never ends by itself, so the loop ends only when an exception leaves it
  (\<open>Some ex\<close>) or when the worker is suspended at the end of the observation (\<open>None\<close>).
\<close>

function for_response_in_bulker :: "nat \<Rightarrow> 'p worker \<Rightarrow> exn option \<times> 'p worker" where
  "for_response_in_bulker BULK_SIZE w =
     (case flush_batch BULK_SIZE w of
        (Yield u, w') \<Rightarrow> for_response_in_bulker BULK_SIZE w'
      | (Raise ex, w') \<Rightarrow> (Some ex, w')
      | (Pending, w') \<Rightarrow> (None, w'))"
  by pat_completeness auto
termination
proof (relation "measure (\<lambda>(n, w). events w)")
  show "wf (measure (\<lambda>(n, w). events w))" by simp
next
  fix BULK_SIZE :: nat and w :: "'p worker" and x1 :: "unit step" and w' :: "'p worker" and u :: unit
  assume "(x1, w') = flush_batch BULK_SIZE w" and "x1 = Yield u"
  then have "flush_batch BULK_SIZE w = (Yield u, w')" by simp
  then have "events w' < events w" by (rule flush_batch_progress) simp
  then show "((BULK_SIZE, w'), (BULK_SIZE, w)) \<in> measure (\<lambda>(n, w). events w)" by simp
qed

declare for_response_in_bulker.simps [simp del]

lemma for_response_in_bulker_progress:
  "for_response_in_bulker n w = (Some ex, w') \<Longrightarrow> events w' < events w"
proof (induction n w rule: for_response_in_bulker.induct)
  case (1 n w)
  obtain r w1 where fb: "flush_batch n w = (r, w1)" by (cases "flush_batch n w")
  show ?case
  proof (cases r)
    case (Yield u)
    have step: "events w1 < events w"
      using flush_batch_progress [OF fb] Yield by simp
    have "for_response_in_bulker n w1 = (Some ex, w')"
      using "1.prems" fb Yield by (subst (asm) for_response_in_bulker.simps) simp
    then have "events w' < events w1"
      using "1.IH" fb Yield by simp
    then show ?thesis using step by simp
  next
    case (Raise e)
    have "w' = w1"
      using "1.prems" fb Raise by (subst (asm) for_response_in_bulker.simps) simp
    then show ?thesis
      using flush_batch_progress [OF fb] Raise by simp
  next
    case Pending
    then show ?thesis
      using "1.prems" fb by (subst (asm) for_response_in_bulker.simps) simp
  qed
qed

text \<open>
  \<^verbatim>\<open>flush_to_es()\<close>: the outer \<^verbatim>\<open>while True\<close> around \<^verbatim>\<open>try\<close>. Each pass
  binds a new empty \<open>ack_list\<close>, creates a new generator over it (not yet resumed),
  logs \<^verbatim>\<open>"Post flush"\<close> and runs the loop over the bulker. The clause
  \<^verbatim>\<open>except Exception as ex\<close> logs the exception and the pass ends; an exception that
  is not an \<^verbatim>\<open>Exception\<close> leaves the function. The result is \<open>None\<close> when the worker
  is still running, suspended at the end of the observation, and \<open>Some ex\<close> when the
  exception \<open>ex\<close> has ended the function.
\<close>

function flush_to_es :: "nat \<Rightarrow> 'p worker \<Rightarrow> exn option \<times> 'p worker" where
  "flush_to_es BULK_SIZE w =
     (case for_response_in_bulker BULK_SIZE
             (w\<lparr>ack_list := [], stream_open := False,
                log := log w @ [LogError ''Post flush'']\<rparr>) of
        (None, w') \<Rightarrow> (None, w')
      | (Some ex, w') \<Rightarrow>
          if is_Exception ex
          then flush_to_es BULK_SIZE (w'\<lparr>log := log w' @ [LogException ex]\<rparr>)
          else (Some ex, w'))"
  by pat_completeness auto
termination
proof (relation "measure (\<lambda>(n, w). events w)")
  show "wf (measure (\<lambda>(n, w). events w))" by simp
next
  fix BULK_SIZE :: nat and w :: "'p worker" and x1 :: "exn option" and w' :: "'p worker"
    and ex :: exn
  assume a: "(x1, w') = for_response_in_bulker BULK_SIZE
      (w\<lparr>ack_list := [], stream_open := False, log := log w @ [LogError ''Post flush'']\<rparr>)"
    and b: "x1 = Some ex"
  have "events w' < events (w\<lparr>ack_list := [], stream_open := False,
      log := log w @ [LogError ''Post flush'']\<rparr>)"
    using a b for_response_in_bulker_progress [of BULK_SIZE _ ex w'] by simp
  then show "((BULK_SIZE, w'\<lparr>log := log w' @ [LogException ex]\<rparr>), (BULK_SIZE, w))
      \<in> measure (\<lambda>(n, w). events w)"
    by (simp add: events_def)
qed

declare flush_to_es.simps [simp del]

text \<open>
  From the state \<open>w\<close> to the state \<open>w'\<close> the batches sent to the backend have only been
  added to, and each batch added holds \<open>n\<close> documents.
\<close>

definition sized_batches :: "nat \<Rightarrow> 'p worker \<Rightarrow> 'p worker \<Rightarrow> bool" where
  "sized_batches n w w' \<longleftrightarrow>
     take (length (submitted w)) (submitted w') = submitted w \<and>
     list_all (\<lambda>chunk. length chunk = n) (drop (length (submitted w)) (submitted w'))"

section \<open>The publisher\<close>

text \<open>
  The values a message is made of: what JSON can carry, and \<open>PObject\<close> for an object the
  JSON serialiser has no encoding for.
\<close>

datatype pyval =
    PNone
  | PBool bool
  | PInt int
  | PStr string
  | PList "pyval list"
  | PDict "(string \<times> pyval) list"
  | PObject string

text \<open>
  \<^verbatim>\<open>value[key]\<close> with a string key: a dictionary returns the entry or raises
  \<open>KeyError\<close>; every other value raises \<open>TypeError\<close>.
\<close>

fun getitem :: "pyval \<Rightarrow> string \<Rightarrow> exn + pyval" where
  "getitem (PDict kvs) k = (case map_of kvs k of None \<Rightarrow> Inl KeyError | Some v \<Rightarrow> Inr v)"
| "getitem _ k = Inl TypeError"

text \<open>Whether the JSON serialiser accepts a value.\<close>

fun serializable :: "pyval \<Rightarrow> bool" where
  "serializable (PObject _) = False"
| "serializable (PList vs) = list_all serializable vs"
| "serializable (PDict kvs) = list_all serializable (map snd kvs)"
| "serializable _ = True"

text \<open>
  The module's state on the publishing side: whether the module-level names
  \<^verbatim>\<open>connection\<close> and \<^verbatim>\<open>es_queue\<close> are bound, how many identifiers
  \<^verbatim>\<open>uuid.uuid4()\<close> has drawn, the actions this process has published on the durable
  channel, in order, and the logger's output.
\<close>

record publisher =
  connection_bound :: bool
  es_queue_bound :: bool
  uuid_draws :: nat
  channel :: "(string \<times> pyval) list list"
  publisher_log :: "log_record list"

text \<open>
  What the broker does during one call: the outcome of acquiring a producer from the pool
  and the outcome of the publish itself (\<open>None\<close>: no exception).
\<close>

record broker =
  acquire :: "exn option"
  publish :: "exn option"

text \<open>
  The module-level \<^verbatim>\<open>try\<close> block (lines 33 to 47): \<^verbatim>\<open>Connection(broker_url)\<close>,
  whose outcome is \<open>connect\<close>, binds \<^verbatim>\<open>connection\<close>; the exchange is bound and
  declared, with outcome \<open>declare\<close>; then \<^verbatim>\<open>es_queue\<close> is bound.
  \<^verbatim>\<open>except Exception\<close> logs the exception and the import goes on with the names bound so
  far. The result is \<open>None\<close> when the import completes and \<open>Some ex\<close> when \<open>ex\<close> ends it.
\<close>

definition module_init :: "exn option \<Rightarrow> exn option \<Rightarrow> exn option \<times> publisher" where
  "module_init connect declare =
     (let s = \<lparr>connection_bound = False, es_queue_bound = False, uuid_draws = 0,
                channel = [], publisher_log = []\<rparr>
      in case connect of
           Some ex \<Rightarrow>
             if is_Exception ex then (None, s\<lparr>publisher_log := [LogException ex]\<rparr>)
             else (Some ex, s)
         | None \<Rightarrow>
             (case declare of
                Some ex \<Rightarrow>
                  if is_Exception ex
                  then (None, s\<lparr>connection_bound := True, publisher_log := [LogException ex]\<rparr>)
                  else (Some ex, s\<lparr>connection_bound := True\<rparr>)
              | None \<Rightarrow> (None, s\<lparr>connection_bound := True, es_queue_bound := True\<rparr>)))"

text \<open>
  \<^verbatim>\<open>_queue_index_request(index, doc_type, document, ttl=TTL)\<close>. \<open>TTL\<close> is the module
  constant and \<open>uuid4 n\<close> the text of the \<open>n\<close>-th identifier that \<^verbatim>\<open>uuid.uuid4()\<close>
  draws; \<open>ttl = None\<close> is a call that does not supply \<open>ttl\<close>. The action is built first;
  then \<^verbatim>\<open>producers[connection].acquire(block=True)\<close>, the evaluation of
  \<^verbatim>\<open>es_queue\<close>, the JSON serialisation and the publish can each raise. The result is
  \<open>None\<close> when the call returns.
\<close>

definition queue_index_request ::
  "pyval \<Rightarrow> (nat \<Rightarrow> string) \<Rightarrow> broker \<Rightarrow> pyval \<Rightarrow> pyval \<Rightarrow> pyval \<Rightarrow> pyval option \<Rightarrow>
   publisher \<Rightarrow> exn option \<times> publisher" where
  "queue_index_request TTL uuid4 b index doc_type document ttl s =
     (let action =
            [(''_index'', index),
             (''_type'', doc_type),
             (''_id'', PStr (uuid4 (uuid_draws s))),
             (''_ttl'', (case ttl of None \<Rightarrow> TTL | Some t \<Rightarrow> t)),
             (''_source'', document)];
          s1 = s\<lparr>uuid_draws := Suc (uuid_draws s)\<rparr>
      in if \<not> connection_bound s1 then (Some NameError, s1)
         else (case acquire b of
           Some ex \<Rightarrow> (Some ex, s1)
         | None \<Rightarrow>
             if \<not> es_queue_bound s1 then (Some NameError, s1)
             else if \<not> serializable (PDict action) then (Some EncodeError, s1)
             else (case publish b of
               Some ex \<Rightarrow> (Some ex, s1)
             | None \<Rightarrow> (None, s1\<lparr>channel := channel s1 @ [action]\<rparr>))))"

text \<open>
  How one run of the task \<open>put_message\<close> ends: it returns, it calls
  \<^verbatim>\<open>put_message.retry()\<close> and so hands the call to the task framework's retry, or an
  exception that is not an \<^verbatim>\<open>Exception\<close> leaves it.
\<close>

datatype task_outcome = Returned | RetryRequested | Escaped exn

text \<open>The handler \<^verbatim>\<open>except Exception as ex\<close> of \<open>put_message\<close>: log, then retry.\<close>

definition except_Exception :: "exn \<Rightarrow> publisher \<Rightarrow> task_outcome \<times> publisher" where
  "except_Exception ex s =
     (if is_Exception ex
      then (RetryRequested, s\<lparr>publisher_log := publisher_log s @ [LogException ex]\<rparr>)
      else (Escaped ex, s))"

text \<open>
  The arguments of the call in \<open>put_message\<close>, evaluated in the order written:
  \<^verbatim>\<open>index=message['dreadfort']['tenant']\<close>, then
  \<^verbatim>\<open>doc_type=message['dreadfort']['correlation']['pattern']\<close>.
\<close>

definition routing_arguments :: "pyval \<Rightarrow> exn + pyval \<times> pyval" where
  "routing_arguments message =
     (case getitem message ''dreadfort'' of
        Inl ex \<Rightarrow> Inl ex
      | Inr d \<Rightarrow>
     (case getitem d ''tenant'' of
        Inl ex \<Rightarrow> Inl ex
      | Inr index \<Rightarrow>
     (case getitem message ''dreadfort'' of
        Inl ex \<Rightarrow> Inl ex
      | Inr d' \<Rightarrow>
     (case getitem d' ''correlation'' of
        Inl ex \<Rightarrow> Inl ex
      | Inr c \<Rightarrow>
     (case getitem c ''pattern'' of
        Inl ex \<Rightarrow> Inl ex
      | Inr doc_type \<Rightarrow> Inr (index, doc_type))))))"

text \<open>
  \<^verbatim>\<open>put_message(message)\<close>: inside the \<^verbatim>\<open>try\<close>, the arguments are evaluated
  and \<open>_queue_index_request\<close> is called with \<^verbatim>\<open>document=message\<close> and without
  \<open>ttl\<close>; whatever \<^verbatim>\<open>Exception\<close> is raised goes to the one handler.
\<close>

definition put_message ::
  "pyval \<Rightarrow> (nat \<Rightarrow> string) \<Rightarrow> broker \<Rightarrow> pyval \<Rightarrow> publisher \<Rightarrow> task_outcome \<times> publisher" where
  "put_message TTL uuid4 b message s =
     (case routing_arguments message of
        Inl ex \<Rightarrow> except_Exception ex s
      | Inr (index, doc_type) \<Rightarrow>
          (case queue_index_request TTL uuid4 b index doc_type message None s of
             (Some ex, s') \<Rightarrow> except_Exception ex s'
           | (None, s') \<Rightarrow> (Returned, s')))"

text \<open>
  The task framework running \<open>put_message\<close> once for each call of a list, a retried call
  being one more entry; each call comes with what the broker does during it.
\<close>

fun put_messages ::
  "pyval \<Rightarrow> (nat \<Rightarrow> string) \<Rightarrow> (broker \<times> pyval) list \<Rightarrow> publisher \<Rightarrow> publisher" where
  "put_messages TTL uuid4 [] s = s"
| "put_messages TTL uuid4 ((b, message) # calls) s =
     put_messages TTL uuid4 calls (snd (put_message TTL uuid4 b message s))"

text \<open>
  An invariant of the publisher's state, for the proofs: the identifiers of the actions
  on the channel are the texts of distinct draws, all of them already made.
\<close>

definition ids_fresh :: "(nat \<Rightarrow> string) \<Rightarrow> publisher \<Rightarrow> bool" where
  "ids_fresh uuid4 s \<longleftrightarrow>
     (\<exists>ks. map (\<lambda>action. map_of action ''_id'') (channel s) = map (\<lambda>k. Some (PStr (uuid4 k))) ks \<and>
        distinct ks \<and> (\<forall>k \<in> set ks. k < uuid_draws s))"

section \<open>The worker pool\<close>

text \<open>
  A \<^verbatim>\<open>multiprocessing.Process\<close>: its target, here always the function
  \<open>flush_to_es\<close>, and whether it has been started.
\<close>

datatype target = Flush_to_es

record process =
  target :: target
  started :: bool

text \<open>
  \<^verbatim>\<open>ElasticSearchStreamBulker\<close>: the constructor stores its argument in
  \<open>bulk_size\<close>; the argument defaults to the module's \<open>BULK_SIZE\<close> (\<open>given = None\<close>).
\<close>

record 'b ElasticSearchStreamBulker =
  bulk_size :: 'b

definition init :: "'b \<Rightarrow> 'b option \<Rightarrow> 'b ElasticSearchStreamBulker" where
  "init BULK_SIZE given =
     \<lparr>bulk_size = (case given of None \<Rightarrow> BULK_SIZE | Some b \<Rightarrow> b)\<rparr>"

text \<open>
  \<^verbatim>\<open>start(self)\<close>: one process for each of \<^verbatim>\<open>range(cpu_count())\<close>, then
  \<^verbatim>\<open>map(lambda x: x.start(), process_list)\<close>. The module is Python 2 (it reads
  \<^verbatim>\<open>ex.message\<close>), where \<^verbatim>\<open>map\<close> builds its list at once and so calls every
  \<^verbatim>\<open>x.start()\<close>. The result is the list of processes as the call leaves them.
\<close>

definition start :: "'b ElasticSearchStreamBulker \<Rightarrow> nat \<Rightarrow> process list" where
  "start self cpu_count =
     (let concurrency = cpu_count;
          process_list = map (\<lambda>x. \<lparr>target = Flush_to_es, started = False\<rparr>) [0..<concurrency]
      in map (\<lambda>x. x\<lparr>started := True\<rparr>) process_list)"

text \<open>
  What a process of the pool computes on its own worker state: nothing unless it was
  started, and otherwise its target, called with no argument, so that the chunk size is
  the module's \<open>BULK_SIZE\<close>.
\<close>

definition run :: "nat \<Rightarrow> process \<Rightarrow> 'p worker \<Rightarrow> (exn option \<times> 'p worker) option" where
  "run BULK_SIZE p w =
     (if started p then (case target p of Flush_to_es \<Rightarrow> Some (flush_to_es BULK_SIZE w))
      else None)"

section \<open>Properties of the consumer\<close>

lemma enter_Connection_fields [simp]:
  "pulls (enter_Connection w) = pulls w"
  "replies (enter_Connection w) = replies w"
  "ack_raises (enter_Connection w) = ack_raises w"
  "ack_list (enter_Connection w) = ack_list w"
  "acked (enter_Connection w) = acked w"
  "submitted (enter_Connection w) = submitted w"
  "log (enter_Connection w) = log w"
  "stream_open (enter_Connection w) = True"
  by (simp_all add: enter_Connection_def)

lemma enter_Connection_idem [simp]:
  "enter_Connection (enter_Connection w) = enter_Connection w"
  by (simp add: enter_Connection_def)

lemma enter_Connection_update [simp]:
  "enter_Connection (w\<lparr>pulls := ps\<rparr>) = (enter_Connection w)\<lparr>pulls := ps\<rparr>"
  "enter_Connection (w\<lparr>ack_list := al\<rparr>) = (enter_Connection w)\<lparr>ack_list := al\<rparr>"
  by (simp_all add: enter_Connection_def)

lemma get_queue_stream_Delivered:
  "pulls w = Delivered m # rest \<Longrightarrow>
   get_queue_stream w =
     (Yield (payload m), (enter_Connection w)\<lparr>pulls := rest, ack_list := ack_list w @ [m]\<rparr>)"
  by (simp add: get_queue_stream_def)

lemma get_queue_stream_Raised:
  "pulls w = Raised e # rest \<Longrightarrow>
   get_queue_stream w = (Raise e, (enter_Connection w)\<lparr>pulls := rest\<rparr>)"
  by (simp add: get_queue_stream_def)

lemma next_chunk_Delivered:
  "pulls w = map Delivered ms @ rest \<Longrightarrow> ms \<noteq> [] \<Longrightarrow>
   next_chunk (length ms) buf w =
     (Yield (buf @ map payload ms),
      (enter_Connection w)\<lparr>pulls := rest, ack_list := ack_list w @ ms\<rparr>)"
proof (induction ms arbitrary: buf w)
  case Nil
  then show ?case by simp
next
  case (Cons m ms)
  have g: "get_queue_stream w =
     (Yield (payload m), (enter_Connection w)\<lparr>pulls := map Delivered ms @ rest, ack_list := ack_list w @ [m]\<rparr>)"
    using Cons.prems by (simp add: get_queue_stream_Delivered)
  show ?case
  proof (cases "ms = []")
    case True
    then show ?thesis using g by simp
  next
    case False
    show ?thesis using g Cons.IH [of "(enter_Connection w)\<lparr>pulls := map Delivered ms @ rest, ack_list := ack_list w @ [m]\<rparr>" "buf @ [payload m]"] False
      by simp
  qed
qed

lemma ack_results_aligned:
  "ack_list w = ms @ others \<Longrightarrow> length oks = length ms \<Longrightarrow>
   \<forall>m \<in> set ms. map_of (ack_raises w) (delivery_tag m) = None \<Longrightarrow>
   ack_results oks w =
     (Yield (), w\<lparr>ack_list := others, acked := acked w @ map fst (filter snd (zip ms oks))\<rparr>)"
proof (induction oks arbitrary: w ms)
  case Nil
  then show ?case by simp
next
  case (Cons ok oks)
  then obtain m ms' where ms: "ms = m # ms'" by (cases ms) auto
  show ?case
  proof (cases ok)
    case True
    then show ?thesis
      using Cons.prems ms
        Cons.IH [of "w\<lparr>ack_list := ms' @ others, acked := acked w @ [m]\<rparr>" ms']
      by simp
  next
    case False
    then show ?thesis
      using Cons.prems ms Cons.IH [of "w\<lparr>ack_list := ms' @ others\<rparr>" ms']
      by simp
  qed
qed


lemma acked_position:
  "distinct ms \<Longrightarrow> length oks = length ms \<Longrightarrow> k < length ms \<Longrightarrow>
   (ms ! k \<in> set (map fst (filter snd (zip ms oks)))) = oks ! k"
proof (induction ms arbitrary: oks k)
  case Nil
  then show ?case by simp
next
  case (Cons m ms)
  then obtain ok oks' where oks: "oks = ok # oks'" by (cases oks) auto
  have notin: "m \<notin> fst ` set (zip ms oks')"
    using Cons.prems(1) by (auto dest: set_zip_leftD)
  show ?case
  proof (cases k)
    case 0
    then show ?thesis using oks notin by (auto simp: image_iff)
  next
    case (Suc j)
    have "ms ! j \<noteq> m" using Cons.prems Suc by auto
    then show ?thesis using Cons.IH [of oks' j] Cons.prems oks Suc by auto
  qed
qed

lemma flush_batch_aligned:
  assumes "pulls w = map Delivered ms @ rest" and "length ms = n"
    and "replies w = Items oks # later" and "length oks = n"
    and "ack_list w = []" and "0 < n"
    and "\<forall>m \<in> set ms. map_of (ack_raises w) (delivery_tag m) = None"
  shows "flush_batch n w =
     (Yield (), (enter_Connection w)\<lparr>pulls := rest, replies := later, ack_list := [],
        acked := acked w @ map fst (filter snd (zip ms oks)),
        submitted := submitted w @ [map payload ms]\<rparr>)"
proof -
  have ne: "ms \<noteq> []" using assms by auto
  have c: "next_chunk n [] w =
     (Yield (map payload ms), (enter_Connection w)\<lparr>pulls := rest, ack_list := ms\<rparr>)"
    using next_chunk_Delivered [OF assms(1) ne, of "[]"] assms(2,5) by simp
  have s: "submit (map payload ms) ((enter_Connection w)\<lparr>pulls := rest, ack_list := ms\<rparr>) =
     (Yield oks, (enter_Connection w)\<lparr>pulls := rest, ack_list := ms, replies := later,
        submitted := submitted w @ [map payload ms]\<rparr>)"
    using assms(3) by (simp add: submit_def)
  have a: "ack_results oks ((enter_Connection w)\<lparr>pulls := rest, ack_list := ms, replies := later,
        submitted := submitted w @ [map payload ms]\<rparr>) =
     (Yield (), (enter_Connection w)\<lparr>pulls := rest, replies := later, ack_list := [],
        acked := acked w @ map fst (filter snd (zip ms oks)),
        submitted := submitted w @ [map payload ms]\<rparr>)"
    using ack_results_aligned [of _ ms "[]" oks] assms(2,4,7) by simp
  show ?thesis
    by (simp add: flush_batch_def c s a)
qed


lemma enter_Connection_open [simp]: "stream_open w \<Longrightarrow> enter_Connection w = w"
  by (simp add: enter_Connection_def)

lemma zip_one_failure:
  "i < length ms \<Longrightarrow>
   map fst (filter snd (zip ms ((replicate (length ms) True)[i := False]))) =
     take i ms @ drop (Suc i) ms"
proof (induction ms arbitrary: i)
  case Nil
  then show ?case by simp
next
  case (Cons m ms)
  have all: "map fst (filter snd (zip ms (replicate (length ms) True))) = ms"
    by (induction ms) simp_all
  show ?case
  proof (cases i)
    case 0
    then show ?thesis using all by simp
  next
    case (Suc j)
    then show ?thesis using Cons.IH [of j] Cons.prems by simp
  qed
qed

text \<open>
  Claim C1 (partial-batch correctness). A batch of \<open>BULK_SIZE\<close> documents is pulled and
  submitted in one pass of the loop, the backend reports failure for the document at
  position \<open>i\<close> and success for all the others, and no \<^verbatim>\<open>ack()\<close> of the batch
  raises. Then, once the results of the batch are processed, the batch sent to the
  backend is the payloads of the pulled messages, the messages acknowledged are exactly
  those of the batch other than the one at position \<open>i\<close>, in the order pulled, the
  message at position \<open>i\<close> is not acknowledged, and the pending list is empty again.
\<close>

theorem partial_batch_correctness:
  assumes "pulls w = map Delivered msgs @ rest" and "length msgs = BULK_SIZE"
    and "replies w = Items ((replicate BULK_SIZE True)[i := False]) # later"
    and "i < BULK_SIZE" and "ack_list w = []"
    and "distinct msgs" and "set msgs \<inter> set (acked w) = {}"
    and "\<forall>m \<in> set msgs. map_of (ack_raises w) (delivery_tag m) = None"
  shows "\<exists>w'. flush_batch BULK_SIZE w = (Yield (), w') \<and>
           for_response_in_bulker BULK_SIZE w = for_response_in_bulker BULK_SIZE w' \<and>
           submitted w' = submitted w @ [map payload msgs] \<and>
           acked w' = acked w @ take i msgs @ drop (Suc i) msgs \<and>
           (\<forall>j. j < BULK_SIZE \<longrightarrow> (msgs ! j \<in> set (acked w')) = (j \<noteq> i)) \<and>
           ack_list w' = []"
proof -
  let ?oks = "(replicate BULK_SIZE True)[i := False]"
  let ?w' = "(enter_Connection w)\<lparr>pulls := rest, replies := later, ack_list := [],
        acked := acked w @ map fst (filter snd (zip msgs ?oks)),
        submitted := submitted w @ [map payload msgs]\<rparr>"
  have fb: "flush_batch BULK_SIZE w = (Yield (), ?w')"
    using flush_batch_aligned [OF assms(1,2,3) _ assms(5) _ assms(8)] assms(4) by simp
  have loop: "for_response_in_bulker BULK_SIZE w = for_response_in_bulker BULK_SIZE ?w'"
    by (subst for_response_in_bulker.simps) (simp add: fb)
  have ak: "acked ?w' = acked w @ take i msgs @ drop (Suc i) msgs"
    using zip_one_failure [of i msgs] assms(2,4) by simp
  have pos: "(msgs ! j \<in> set (acked ?w')) = (j \<noteq> i)" if j: "j < BULK_SIZE" for j
  proof -
    have "msgs ! j \<notin> set (acked w)"
      using assms(2,7) j by (meson disjoint_iff nth_mem)
    moreover have "(msgs ! j \<in> set (map fst (filter snd (zip msgs ?oks)))) = ?oks ! j"
      using acked_position [of msgs ?oks j] assms(2,6) j by simp
    moreover have "?oks ! j = (j \<noteq> i)"
      using j assms(4) by (simp add: nth_list_update)
    ultimately show ?thesis by simp
  qed
  show ?thesis
    using fb loop ak pos by (intro exI [of _ ?w']) simp
qed

theorem partial_batch_correctness_witness:
  "\<exists>w'. flush_batch 3
          \<lparr>pulls = [Delivered (Message 1 ''doc1''), Delivered (Message 2 ''doc2''),
                    Delivered (Message 3 ''doc3'')],
           replies = [Items [True, False, True]], ack_raises = [], ack_list = [], stream_open = False,
           connections = 0, acked = [], submitted = [], log = []\<rparr> = (Yield (), w') \<and>
        submitted w' = [[''doc1'', ''doc2'', ''doc3'']] \<and>
        acked w' = [Message 1 ''doc1'', Message 3 ''doc3''] \<and>
        Message 2 ''doc2'' \<notin> set (acked w') \<and> ack_list w' = []"
  using partial_batch_correctness
    [of "\<lparr>pulls = [Delivered (Message 1 ''doc1''), Delivered (Message 2 ''doc2''),
                    Delivered (Message 3 ''doc3'')],
           replies = [Items [True, False, True]], ack_raises = [], ack_list = [], stream_open = False,
           connections = 0, acked = [], submitted = [], log = []\<rparr>"
        "[Message 1 ''doc1'', Message 2 ''doc2'', Message 3 ''doc3'']" "[]" 3 1 "[]"]
  by (auto simp: eval_nat_numeral)

lemma next_chunk_appends:
  "next_chunk n buf v = (Yield ps, v') \<Longrightarrow>
   \<exists>ms. length ms = n \<and> ack_list v' = ack_list v @ ms \<and> ps = buf @ map payload ms"
proof (induction n arbitrary: buf v)
  case 0
  then show ?case by simp
next
  case (Suc n)
  obtain r v1 where g: "get_queue_stream v = (r, v1)" by (cases "get_queue_stream v")
  show ?case
  proof (cases r)
    case (Yield p)
    then obtain m where m: "ack_list v1 = ack_list v @ [m]" "payload m = p"
      using g by (auto simp: get_queue_stream_def Let_def split: list.splits pull.splits)
    have "next_chunk n (buf @ [p]) v1 = (Yield ps, v')"
      using Suc.prems g Yield by simp
    from Suc.IH [OF this] obtain ms where
      ms: "length ms = n" "ack_list v' = ack_list v1 @ ms" "ps = (buf @ [p]) @ map payload ms"
      by blast
    show ?thesis
      using m ms by (intro exI [of _ "m # ms"]) simp
  qed (use Suc.prems g in simp_all)
qed

lemma for_response_in_bulker_aligned:
  assumes "0 < n"
  shows "list_all2 (\<lambda>b r. length b = n \<and> length r = n) batches results \<Longrightarrow>
    pulls w = map Delivered (concat batches) @ rest \<Longrightarrow>
    replies w = map Items results @ later \<Longrightarrow> ack_list w = [] \<Longrightarrow>
    \<forall>m \<in> set (concat batches). map_of (ack_raises w) (delivery_tag m) = None \<Longrightarrow>
    for_response_in_bulker n w =
      for_response_in_bulker n
        ((if batches = [] then w else enter_Connection w)
           \<lparr>pulls := rest, replies := later, ack_list := [],
            acked := acked w @ map fst (filter snd (zip (concat batches) (concat results))),
            submitted := submitted w @ map (map payload) batches\<rparr>)"
proof (induction batches results arbitrary: w rule: list_all2_induct)
  case Nil
  then have "w\<lparr>pulls := rest, replies := later, ack_list := []\<rparr> = w"
    by (cases w) simp
  then show ?case by simp
next
  case (Cons b bs r rs)
  let ?w1 = "(enter_Connection w)\<lparr>pulls := map Delivered (concat bs) @ rest,
        replies := map Items rs @ later, ack_list := [],
        acked := acked w @ map fst (filter snd (zip b r)),
        submitted := submitted w @ [map payload b]\<rparr>"
  have fb: "flush_batch n w = (Yield (), ?w1)"
    using flush_batch_aligned [of w b "map Delivered (concat bs) @ rest" n r "map Items rs @ later"]
      Cons.hyps(1) Cons.prems assms by simp
  have step: "for_response_in_bulker n w = for_response_in_bulker n ?w1"
    by (subst for_response_in_bulker.simps) (simp add: fb)
  have ih: "for_response_in_bulker n ?w1 =
      for_response_in_bulker n
        ((if bs = [] then ?w1 else enter_Connection ?w1)
           \<lparr>pulls := rest, replies := later, ack_list := [],
            acked := acked ?w1 @ map fst (filter snd (zip (concat bs) (concat rs))),
            submitted := submitted ?w1 @ map (map payload) bs\<rparr>)"
    by (rule Cons.IH) (use Cons.prems(4) in simp_all)
  have len: "length b = length r" using Cons.hyps(1) by simp
  show ?case
    unfolding step ih using len by simp
qed

lemma aligned_lengths:
  "list_all2 (\<lambda>b r. length b = n \<and> length r = n) batches results \<Longrightarrow>
   length (concat results) = length (concat batches)"
  by (induction batches results rule: list_all2_induct) simp_all

lemma next_chunk_Pending:
  "pulls w = map Delivered ms \<Longrightarrow> length ms < n \<Longrightarrow>
   next_chunk n buf w =
     (Pending, (enter_Connection w)\<lparr>pulls := [], ack_list := ack_list w @ ms\<rparr>)"
proof (induction ms arbitrary: n buf w)
  case Nil
  then obtain k where n: "n = Suc k" by (cases n) auto
  have "(enter_Connection w)\<lparr>pulls := [], ack_list := ack_list w\<rparr> = enter_Connection w"
    using Nil.prems(1) by (cases w) (simp add: enter_Connection_def)
  then show ?case using Nil.prems n by (simp add: get_queue_stream_def)
next
  case (Cons m ms)
  then obtain k where n: "n = Suc k" by (cases n) auto
  have g: "get_queue_stream w =
     (Yield (payload m),
      (enter_Connection w)\<lparr>pulls := map Delivered ms, ack_list := ack_list w @ [m]\<rparr>)"
    using Cons.prems by (simp add: get_queue_stream_Delivered)
  show ?case
    using g n Cons.prems
      Cons.IH [of "(enter_Connection w)\<lparr>pulls := map Delivered ms,
        ack_list := ack_list w @ [m]\<rparr>" k "buf @ [payload m]"]
    by simp
qed

lemma for_response_in_bulker_Pending:
  assumes "pulls w = map Delivered msgs" and "length msgs < n"
  shows "for_response_in_bulker n w =
     (None, (enter_Connection w)\<lparr>pulls := [], ack_list := ack_list w @ msgs\<rparr>)"
  by (subst for_response_in_bulker.simps)
    (simp add: flush_batch_def next_chunk_Pending [OF assms])

text \<open>
  Claim C2 (order-preserving acknowledgment). A resumption of the stream reader that pulls
  a message appends its handle at the end of the pending list and yields its payload, so
  the payloads yielded over any number of resumptions are those of the handles appended,
  in order. When the worker pulls any number of full batches and then fewer messages than
  a batch, the backend answers each batch with one result per document and no
  \<^verbatim>\<open>ack()\<close> raises, the flusher pops the oldest handle for each result: the loop sends
  the batches as the payloads in the order pulled, acknowledges the message pulled
  \<open>k\<close>-th exactly when the \<open>k\<close>-th result is a success, and is then suspended in the
  next pull with only the messages of the unfinished batch pending.
\<close>

theorem ack_order_preserved:
  fixes w :: "'p worker"
  assumes "list_all2 (\<lambda>b r. length b = BULK_SIZE \<and> length r = BULK_SIZE) batches results"
    and "pulls w = map Delivered (concat batches) @ map Delivered msgs"
    and "length msgs < BULK_SIZE"
    and "replies w = map Items results @ later"
    and "ack_list w = []"
    and "\<forall>m \<in> set (concat batches). map_of (ack_raises w) (delivery_tag m) = None"
    and "distinct (concat batches)" and "set (concat batches) \<inter> set (acked w) = {}"
  shows "(\<forall>(v :: 'p worker) m rest. pulls v = Delivered m # rest \<longrightarrow>
            get_queue_stream v =
              (Yield (payload m),
               (enter_Connection v)\<lparr>pulls := rest, ack_list := ack_list v @ [m]\<rparr>)) \<and>
         (\<forall>(v :: 'p worker) ms rest. ms \<noteq> [] \<and> pulls v = map Delivered ms @ rest \<longrightarrow>
            next_chunk (length ms) [] v =
              (Yield (map payload ms),
               (enter_Connection v)\<lparr>pulls := rest, ack_list := ack_list v @ ms\<rparr>)) \<and>
         (\<forall>n (v :: 'p worker) ps v'. next_chunk n [] v = (Yield ps, v') \<longrightarrow>
            (\<exists>ms. length ms = n \<and> ack_list v' = ack_list v @ ms \<and> ps = map payload ms)) \<and>
         for_response_in_bulker BULK_SIZE w =
           (None,
            (enter_Connection w)
              \<lparr>pulls := [], replies := later, ack_list := msgs,
               acked := acked w @ map fst (filter snd (zip (concat batches) (concat results))),
               submitted := submitted w @ map (map payload) batches\<rparr>) \<and>
         flush_to_es BULK_SIZE w =
           (None,
            w\<lparr>pulls := [], replies := later, ack_list := msgs, stream_open := True,
              connections := Suc (connections w),
              acked := acked w @ map fst (filter snd (zip (concat batches) (concat results))),
              submitted := submitted w @ map (map payload) batches,
              log := log w @ [LogError ''Post flush'']\<rparr>) \<and>
         (\<forall>k. k < length (concat batches) \<longrightarrow>
            (concat batches ! k \<in> set (acked (snd (for_response_in_bulker BULK_SIZE w)))) =
              concat results ! k)"
proof -
  let ?msgs = "concat batches" and ?oks = "concat results"
  let ?acked = "acked w @ map fst (filter snd (zip ?msgs ?oks))"
  let ?sub = "submitted w @ map (map payload) batches"
  have pos: "0 < BULK_SIZE" using assms(3) by simp
  have reader: "\<forall>(v :: 'p worker) m rest. pulls v = Delivered m # rest \<longrightarrow>
            get_queue_stream v =
              (Yield (payload m),
               (enter_Connection v)\<lparr>pulls := rest, ack_list := ack_list v @ [m]\<rparr>)"
    by (simp add: get_queue_stream_Delivered)
  have prefix: "\<forall>(v :: 'p worker) ms rest. ms \<noteq> [] \<and> pulls v = map Delivered ms @ rest \<longrightarrow>
            next_chunk (length ms) [] v =
              (Yield (map payload ms),
               (enter_Connection v)\<lparr>pulls := rest, ack_list := ack_list v @ ms\<rparr>)"
    using next_chunk_Delivered [where buf = "[]"] by auto
  have appends: "\<forall>n (v :: 'p worker) ps v'. next_chunk n [] v = (Yield ps, v') \<longrightarrow>
            (\<exists>ms. length ms = n \<and> ack_list v' = ack_list v @ ms \<and> ps = map payload ms)"
  proof (intro allI impI)
    fix n and v v' :: "'p worker" and ps
    assume "next_chunk n [] v = (Yield ps, v')"
    from next_chunk_appends [OF this] show
      "\<exists>ms. length ms = n \<and> ack_list v' = ack_list v @ ms \<and> ps = map payload ms"
      by simp
  qed
  have loop_from: "for_response_in_bulker BULK_SIZE v =
       (None, (enter_Connection v)\<lparr>pulls := [], replies := later, ack_list := msgs,
          acked := acked v @ map fst (filter snd (zip ?msgs ?oks)),
          submitted := submitted v @ map (map payload) batches\<rparr>)"
    if v: "pulls v = map Delivered ?msgs @ map Delivered msgs"
      "replies v = map Items results @ later" "ack_list v = []"
      "\<forall>m \<in> set ?msgs. map_of (ack_raises v) (delivery_tag m) = None"
    for v :: "'p worker"
  proof -
    let ?v1 = "(if batches = [] then v else enter_Connection v)
        \<lparr>pulls := map Delivered msgs, replies := later, ack_list := [],
          acked := acked v @ map fst (filter snd (zip ?msgs ?oks)),
          submitted := submitted v @ map (map payload) batches\<rparr>"
    have full: "for_response_in_bulker BULK_SIZE v = for_response_in_bulker BULK_SIZE ?v1"
      using for_response_in_bulker_aligned [OF pos assms(1) v] .
    have part: "for_response_in_bulker BULK_SIZE ?v1 =
        (None, (enter_Connection ?v1)\<lparr>pulls := [], ack_list := ack_list ?v1 @ msgs\<rparr>)"
      by (rule for_response_in_bulker_Pending [OF _ assms(3)]) simp
    have "(enter_Connection ?v1)\<lparr>pulls := [], ack_list := ack_list ?v1 @ msgs\<rparr> =
        (enter_Connection v)\<lparr>pulls := [], replies := later, ack_list := msgs,
          acked := acked v @ map fst (filter snd (zip ?msgs ?oks)),
          submitted := submitted v @ map (map payload) batches\<rparr>"
      by (cases v) (simp add: enter_Connection_def)
    then show ?thesis using full part by simp
  qed
  have loop: "for_response_in_bulker BULK_SIZE w =
       (None, (enter_Connection w)\<lparr>pulls := [], replies := later, ack_list := msgs,
          acked := ?acked, submitted := ?sub\<rparr>)"
    using loop_from [OF assms(2,4,5,6)] .
  let ?w0 = "w\<lparr>ack_list := [], stream_open := False, log := log w @ [LogError ''Post flush'']\<rparr>"
  have loop0: "for_response_in_bulker BULK_SIZE ?w0 =
       (None, (enter_Connection ?w0)\<lparr>pulls := [], replies := later, ack_list := msgs,
          acked := acked ?w0 @ map fst (filter snd (zip ?msgs ?oks)),
          submitted := submitted ?w0 @ map (map payload) batches\<rparr>)"
    by (rule loop_from) (use assms(2,4,6) in simp_all)
  have eq0: "(enter_Connection ?w0)\<lparr>pulls := [], replies := later, ack_list := msgs,
          acked := acked ?w0 @ map fst (filter snd (zip ?msgs ?oks)),
          submitted := submitted ?w0 @ map (map payload) batches\<rparr> =
       w\<lparr>pulls := [], replies := later, ack_list := msgs, stream_open := True,
          connections := Suc (connections w), acked := ?acked, submitted := ?sub,
          log := log w @ [LogError ''Post flush'']\<rparr>"
    by (cases w) (simp add: enter_Connection_def)
  have run: "flush_to_es BULK_SIZE w =
       (None, w\<lparr>pulls := [], replies := later, ack_list := msgs, stream_open := True,
          connections := Suc (connections w), acked := ?acked, submitted := ?sub,
          log := log w @ [LogError ''Post flush'']\<rparr>)"
    by (subst flush_to_es.simps) (simp only: loop0 eq0 prod.case option.case)
  have len: "length ?oks = length ?msgs"
    using aligned_lengths [OF assms(1)] .
  have position: "\<forall>k. k < length ?msgs \<longrightarrow>
      (?msgs ! k \<in> set (acked (snd (for_response_in_bulker BULK_SIZE w)))) = ?oks ! k"
  proof (intro allI impI)
    fix k assume k: "k < length ?msgs"
    have "?msgs ! k \<notin> set (acked w)"
      using assms(8) k by (meson disjoint_iff nth_mem)
    then show "(?msgs ! k \<in> set (acked (snd (for_response_in_bulker BULK_SIZE w)))) = ?oks ! k"
      using acked_position [OF assms(7) len k] by (simp add: loop)
  qed
  show ?thesis
    using reader prefix appends loop run position by blast
qed

theorem ack_order_preserved_witness:
  "for_response_in_bulker 2
     \<lparr>pulls = [Delivered (Message 1 ''a''), Delivered (Message 2 ''b''),
               Delivered (Message 3 ''c''), Delivered (Message 4 ''d''),
               Delivered (Message 5 ''e'')],
      replies = [Items [True, False], Items [False, True]], ack_raises = [], ack_list = [],
      stream_open = False, connections = 0, acked = [], submitted = [], log = []\<rparr> =
   (None,
    \<lparr>pulls = [], replies = [], ack_raises = [], ack_list = [Message 5 ''e''],
      stream_open = True, connections = 1,
      acked = [Message 1 ''a'', Message 4 ''d''],
      submitted = [[''a'', ''b''], [''c'', ''d'']], log = []\<rparr>) \<and>
   flush_to_es 2
     \<lparr>pulls = [Delivered (Message 1 ''a''), Delivered (Message 2 ''b''),
               Delivered (Message 3 ''c''), Delivered (Message 4 ''d''),
               Delivered (Message 5 ''e'')],
      replies = [Items [True, False], Items [False, True]], ack_raises = [], ack_list = [],
      stream_open = False, connections = 0, acked = [], submitted = [], log = []\<rparr> =
   (None,
    \<lparr>pulls = [], replies = [], ack_raises = [], ack_list = [Message 5 ''e''],
      stream_open = True, connections = 1,
      acked = [Message 1 ''a'', Message 4 ''d''],
      submitted = [[''a'', ''b''], [''c'', ''d'']], log = [LogError ''Post flush'']\<rparr>)"
  using ack_order_preserved
    [of 2 "[[Message 1 ''a'', Message 2 ''b''], [Message 3 ''c'', Message 4 ''d'']]"
        "[[True, False], [False, True]]"
        "\<lparr>pulls = [Delivered (Message 1 ''a''), Delivered (Message 2 ''b''),
               Delivered (Message 3 ''c''), Delivered (Message 4 ''d''),
               Delivered (Message 5 ''e'')],
      replies = [Items [True, False], Items [False, True]], ack_raises = [], ack_list = [],
      stream_open = False, connections = 0, acked = [], submitted = [], log = []\<rparr>"
        "[Message 5 ''e'']" "[]"]
  by (simp add: enter_Connection_def)

lemma flush_to_es_uncaught:
  "fst (flush_to_es n w) = Some e \<Longrightarrow> \<not> is_Exception e"
proof (induction n w rule: flush_to_es.induct)
  case (1 n w)
  let ?w0 = "w\<lparr>ack_list := [], stream_open := False, log := log w @ [LogError ''Post flush'']\<rparr>"
  obtain r w' where loop: "for_response_in_bulker n ?w0 = (r, w')"
    by (cases "for_response_in_bulker n ?w0")
  show ?case
  proof (cases r)
    case None
    then show ?thesis
      using "1.prems" loop by (subst (asm) flush_to_es.simps) simp
  next
    case (Some ex)
    show ?thesis
    proof (cases "is_Exception ex")
      case True
      have "flush_to_es n w = flush_to_es n (w'\<lparr>log := log w' @ [LogException ex]\<rparr>)"
        using loop Some True by (subst flush_to_es.simps) simp
      then show ?thesis
        using "1.IH" [OF loop [symmetric] Some True] "1.prems" by simp
    next
      case False
      have "flush_to_es n w = (Some ex, w')"
        using loop Some False by (subst flush_to_es.simps) simp
      then show ?thesis using "1.prems" False by simp
    qed
  qed
qed

lemma flush_to_es_restart:
  "flush_to_es n (w\<lparr>ack_list := al, stream_open := b\<rparr>) = flush_to_es n w"
  by (subst flush_to_es.simps, subst (2) flush_to_es.simps) simp

lemma next_chunk_Raised:
  "pulls w = map Delivered ms @ Raised e # rest \<Longrightarrow> length ms < n \<Longrightarrow>
   next_chunk n buf w =
     (Raise e, (enter_Connection w)\<lparr>pulls := rest, ack_list := ack_list w @ ms\<rparr>)"
proof (induction ms arbitrary: n buf w)
  case Nil
  then obtain k where n: "n = Suc k" by (cases n) auto
  show ?case using Nil.prems n by (simp add: get_queue_stream_Raised)
next
  case (Cons m ms)
  then obtain k where n: "n = Suc k" by (cases n) auto
  have g: "get_queue_stream w =
     (Yield (payload m),
      (enter_Connection w)\<lparr>pulls := map Delivered ms @ Raised e # rest,
        ack_list := ack_list w @ [m]\<rparr>)"
    using Cons.prems by (simp add: get_queue_stream_Delivered)
  show ?case
    using g n Cons.prems
      Cons.IH [of "(enter_Connection w)\<lparr>pulls := map Delivered ms @ Raised e # rest,
        ack_list := ack_list w @ [m]\<rparr>" k "buf @ [payload m]"]
    by simp
qed

lemma for_response_in_bulker_Raised:
  assumes "pulls w = map Delivered msgs @ Raised e # rest" and "length msgs < n"
  shows "for_response_in_bulker n w =
     (Some e, (enter_Connection w)\<lparr>pulls := rest, ack_list := ack_list w @ msgs\<rparr>)"
  by (subst for_response_in_bulker.simps)
    (simp add: flush_batch_def next_chunk_Raised [OF assms])

text \<open>
  Claim C3 (a timeout of the pull), as the code has it. The stream reader has no handler
  around the pull and does not retry it: a pull that times out raises \<open>QueueEmpty\<close> out
  of the sequence. When this happens in a pass of \<open>flush_to_es\<close>, after any number of
  full batches answered with one result per document and any number of further messages
  fewer than a batch, the outer loop catches the exception and logs it, and the worker
  goes on with a new pass, a new stream and a new connection; the messages pulled since
  the last batch are dropped from the pending list, neither submitted nor acknowledged.
  A timeout never ends \<open>flush_to_es\<close>.
\<close>

theorem timeout_restarts_pass:
  fixes w :: "'p worker"
  assumes "list_all2 (\<lambda>b r. length b = BULK_SIZE \<and> length r = BULK_SIZE) batches results"
    and "pulls w = map Delivered (concat batches) @ map Delivered msgs @ Raised QueueEmpty # rest"
    and "replies w = map Items results @ later"
    and "length msgs < BULK_SIZE"
    and "\<forall>m \<in> set (concat batches). map_of (ack_raises w) (delivery_tag m) = None"
  shows "(\<forall>(v :: 'p worker) others. pulls v = Raised QueueEmpty # others \<longrightarrow>
            get_queue_stream v = (Raise QueueEmpty, (enter_Connection v)\<lparr>pulls := others\<rparr>)) \<and>
         flush_to_es BULK_SIZE w =
           flush_to_es BULK_SIZE
             (w\<lparr>pulls := rest, replies := later, connections := Suc (connections w),
                acked := acked w @ map fst (filter snd (zip (concat batches) (concat results))),
                submitted := submitted w @ map (map payload) batches,
                log := log w @ [LogError ''Post flush'', LogException QueueEmpty]\<rparr>) \<and>
         fst (flush_to_es BULK_SIZE w) \<noteq> Some QueueEmpty"
proof (intro conjI)
  show "\<forall>(v :: 'p worker) others. pulls v = Raised QueueEmpty # others \<longrightarrow>
            get_queue_stream v = (Raise QueueEmpty, (enter_Connection v)\<lparr>pulls := others\<rparr>)"
    by (simp add: get_queue_stream_Raised)
next
  let ?w0 = "w\<lparr>ack_list := [], stream_open := False, log := log w @ [LogError ''Post flush'']\<rparr>"
  let ?acked = "acked w @ map fst (filter snd (zip (concat batches) (concat results)))"
  let ?sub = "submitted w @ map (map payload) batches"
  let ?w1 = "(if batches = [] then ?w0 else enter_Connection ?w0)
      \<lparr>pulls := map Delivered msgs @ Raised QueueEmpty # rest, replies := later,
        ack_list := [], acked := ?acked, submitted := ?sub\<rparr>"
  let ?w2 = "(enter_Connection ?w1)\<lparr>pulls := rest, ack_list := ack_list ?w1 @ msgs\<rparr>"
  let ?goal = "w\<lparr>pulls := rest, replies := later, connections := Suc (connections w),
                acked := ?acked, submitted := ?sub,
                log := log w @ [LogError ''Post flush'', LogException QueueEmpty]\<rparr>"
  have pos: "0 < BULK_SIZE" using assms(4) by simp
  have full: "for_response_in_bulker BULK_SIZE ?w0 = for_response_in_bulker BULK_SIZE ?w1"
    using for_response_in_bulker_aligned [OF pos assms(1), of ?w0
        "map Delivered msgs @ Raised QueueEmpty # rest" later] assms(2,3,5)
    by simp
  have part: "for_response_in_bulker BULK_SIZE ?w1 = (Some QueueEmpty, ?w2)"
    by (rule for_response_in_bulker_Raised [OF _ assms(4)]) simp
  have "flush_to_es BULK_SIZE w =
      flush_to_es BULK_SIZE (?w2\<lparr>log := log ?w2 @ [LogException QueueEmpty]\<rparr>)"
    by (subst flush_to_es.simps) (simp only: full part prod.case option.case is_Exception.simps if_True)
  also have "?w2\<lparr>log := log ?w2 @ [LogException QueueEmpty]\<rparr> =
      ?goal\<lparr>ack_list := msgs, stream_open := True\<rparr>"
    by (cases w) (simp add: enter_Connection_def)
  also have "flush_to_es BULK_SIZE \<dots> = flush_to_es BULK_SIZE ?goal"
    by (rule flush_to_es_restart)
  finally show "flush_to_es BULK_SIZE w = flush_to_es BULK_SIZE ?goal" .
next
  show "fst (flush_to_es BULK_SIZE w) \<noteq> Some QueueEmpty"
    using flush_to_es_uncaught [of BULK_SIZE w QueueEmpty] by auto
qed

theorem timeout_restarts_pass_witness:
  "flush_to_es 2
     \<lparr>pulls = [Delivered (Message 1 ''a''), Delivered (Message 2 ''b''),
               Delivered (Message 3 ''c''), Raised QueueEmpty,
               Delivered (Message 3 ''c''), Delivered (Message 4 ''d'')],
      replies = [Items [True, False], Items [True, True]], ack_raises = [], ack_list = [],
      stream_open = False, connections = 0, acked = [], submitted = [], log = []\<rparr> =
   flush_to_es 2
     \<lparr>pulls = [Delivered (Message 3 ''c''), Delivered (Message 4 ''d'')],
      replies = [Items [True, True]], ack_raises = [], ack_list = [], stream_open = False, connections = 1,
      acked = [Message 1 ''a''], submitted = [[''a'', ''b'']],
      log = [LogError ''Post flush'', LogException QueueEmpty]\<rparr>"
  using timeout_restarts_pass
    [of 2 "[[Message 1 ''a'', Message 2 ''b'']]" "[[True, False]]"
      "\<lparr>pulls = [Delivered (Message 1 ''a''), Delivered (Message 2 ''b''),
               Delivered (Message 3 ''c''), Raised QueueEmpty,
               Delivered (Message 3 ''c''), Delivered (Message 4 ''d'')],
      replies = [Items [True, False], Items [True, True]], ack_raises = [], ack_list = [],
      stream_open = False, connections = 0, acked = [], submitted = [], log = []\<rparr>"
      "[Message 3 ''c'']" "[Delivered (Message 3 ''c''), Delivered (Message 4 ''d'')]"
      "[Items [True, True]]"]
  by simp

text \<open>
  Claim C3 as stated fails: the first pull times out while a message is still to come,
  and the reader raises \<open>QueueEmpty\<close> out of the sequence instead of pulling again.
\<close>

theorem timeout_raises_counterexample:
  "get_queue_stream
     \<lparr>pulls = [Raised QueueEmpty, Delivered (Message 1 ''doc'')], replies = [],
      ack_raises = [], ack_list = [], stream_open = False, connections = 0, acked = [], submitted = [],
      log = []\<rparr> =
   (Raise QueueEmpty,
    \<lparr>pulls = [Delivered (Message 1 ''doc'')], replies = [],
      ack_raises = [], ack_list = [], stream_open = True, connections = 1, acked = [], submitted = [],
      log = []\<rparr>)"
  by (simp add: get_queue_stream_def enter_Connection_def)

text \<open>
  Claim C4 (the outer recovery loop), as the code has it. When an exception that is an
  instance of \<^verbatim>\<open>Exception\<close> leaves the loop over the bulker, \<open>flush_to_es\<close> logs it
  and goes on as from the state in which the pending list is empty again and the stream is
  not yet open, so that the next pass opens a new connection; an exception that is not an
  instance of \<^verbatim>\<open>Exception\<close> ends \<open>flush_to_es\<close>, unlogged; and \<open>flush_to_es\<close>
  never ends by an exception that is an instance of \<^verbatim>\<open>Exception\<close>.
\<close>

theorem recovery_loop_catches_Exception:
  assumes "for_response_in_bulker BULK_SIZE
           (w\<lparr>ack_list := [], stream_open := False,
              log := log w @ [LogError ''Post flush'']\<rparr>) = (Some ex, w')"
  shows "(is_Exception ex \<longrightarrow>
            flush_to_es BULK_SIZE w =
              flush_to_es BULK_SIZE
                (w'\<lparr>ack_list := [], stream_open := False,
                    log := log w' @ [LogException ex]\<rparr>)) \<and>
         (\<not> is_Exception ex \<longrightarrow> flush_to_es BULK_SIZE w = (Some ex, w')) \<and>
         (\<forall>e. fst (flush_to_es BULK_SIZE w) = Some e \<longrightarrow> \<not> is_Exception e)"
proof (intro conjI impI)
  assume caught: "is_Exception ex"
  have "flush_to_es BULK_SIZE w =
      flush_to_es BULK_SIZE (w'\<lparr>log := log w' @ [LogException ex]\<rparr>)"
    using assms caught by (subst flush_to_es.simps) simp
  also have "\<dots> = flush_to_es BULK_SIZE
      ((w'\<lparr>log := log w' @ [LogException ex]\<rparr>)\<lparr>ack_list := [], stream_open := False\<rparr>)"
    by (rule flush_to_es_restart [symmetric])
  also have "(w'\<lparr>log := log w' @ [LogException ex]\<rparr>)\<lparr>ack_list := [], stream_open := False\<rparr> =
      w'\<lparr>ack_list := [], stream_open := False, log := log w' @ [LogException ex]\<rparr>"
    by (cases w') simp
  finally show "flush_to_es BULK_SIZE w =
           flush_to_es BULK_SIZE
             (w'\<lparr>ack_list := [], stream_open := False,
                 log := log w' @ [LogException ex]\<rparr>)" .
next
  assume "\<not> is_Exception ex"
  then show "flush_to_es BULK_SIZE w = (Some ex, w')"
    using assms by (subst flush_to_es.simps) simp
next
  show "\<forall>e. fst (flush_to_es BULK_SIZE w) = Some e \<longrightarrow> \<not> is_Exception e"
    using flush_to_es_uncaught by blast
qed

theorem recovery_loop_catches_Exception_witness:
  "flush_to_es 1
     \<lparr>pulls = [Delivered (Message 1 ''doc''), Delivered (Message 1 ''doc'')],
      replies = [BulkRaised ConnectionError, Items [True]], ack_raises = [], ack_list = [],
      stream_open = False, connections = 0, acked = [], submitted = [], log = []\<rparr> =
   flush_to_es 1
     \<lparr>pulls = [Delivered (Message 1 ''doc'')], replies = [Items [True]], ack_raises = [], ack_list = [],
      stream_open = False, connections = 1, acked = [], submitted = [[''doc'']],
      log = [LogError ''Post flush'', LogException ConnectionError]\<rparr>"
proof -
  have escapes: "for_response_in_bulker 1
      (\<lparr>pulls = [Delivered (Message 1 ''doc''), Delivered (Message 1 ''doc'')],
        replies = [BulkRaised ConnectionError, Items [True]], ack_raises = [], ack_list = [],
        stream_open = False, connections = 0, acked = [], submitted = [], log = []\<rparr>
       \<lparr>ack_list := [], stream_open := False,
         log := log \<lparr>pulls = [Delivered (Message 1 ''doc''), Delivered (Message 1 ''doc'')],
            replies = [BulkRaised ConnectionError, Items [True]], ack_raises = [], ack_list = [],
            stream_open = False, connections = 0, acked = [], submitted = [],
            log = []\<rparr> @ [LogError ''Post flush'']\<rparr>) =
     (Some ConnectionError,
      \<lparr>pulls = [Delivered (Message 1 ''doc'')], replies = [Items [True]],
        ack_raises = [], ack_list = [Message 1 ''doc''], stream_open = True, connections = 1, acked = [],
        submitted = [[''doc'']], log = [LogError ''Post flush'']\<rparr>)"
    by code_simp
  show ?thesis
    using recovery_loop_catches_Exception [OF escapes] by simp
qed

text \<open>
  Claim C4 as stated fails for an exception outside \<^verbatim>\<open>Exception\<close>: a
  \<open>KeyboardInterrupt\<close> raised in the blocking pull is not caught by
  \<^verbatim>\<open>except Exception\<close>, is not logged, and ends \<open>flush_to_es\<close>.
\<close>

theorem recovery_loop_counterexample:
  "flush_to_es 1
     \<lparr>pulls = [Raised KeyboardInterrupt, Delivered (Message 1 ''doc'')],
      replies = [Items [True]], ack_raises = [], ack_list = [], stream_open = False, connections = 0,
      acked = [], submitted = [], log = []\<rparr> =
   (Some KeyboardInterrupt,
    \<lparr>pulls = [Delivered (Message 1 ''doc'')],
      replies = [Items [True]], ack_raises = [], ack_list = [], stream_open = True, connections = 1,
      acked = [], submitted = [], log = [LogError ''Post flush'']\<rparr>)"
  by code_simp

text \<open>Every batch that \<open>flush_to_es\<close> sends holds \<open>BULK_SIZE\<close> documents.\<close>

lemma sized_batches_trans:
  assumes "sized_batches n w w1" and "sized_batches n w1 w2"
  shows "sized_batches n w w2"
proof -
  obtain cs where cs: "submitted w1 = submitted w @ cs" "list_all (\<lambda>c. length c = n) cs"
    using assms(1) unfolding sized_batches_def
    by (metis append_take_drop_id)
  obtain ds where ds: "submitted w2 = submitted w1 @ ds" "list_all (\<lambda>c. length c = n) ds"
    using assms(2) unfolding sized_batches_def
    by (metis append_take_drop_id)
  show ?thesis
    using cs ds by (simp add: sized_batches_def)
qed

lemma get_queue_stream_submitted: "submitted (snd (get_queue_stream w)) = submitted w"
  by (simp add: get_queue_stream_def Let_def split: list.splits pull.splits)

lemma next_chunk_submitted: "submitted (snd (next_chunk n buf w)) = submitted w"
proof (induction n arbitrary: buf w)
  case 0
  show ?case by simp
next
  case (Suc n)
  obtain r w' where g: "get_queue_stream w = (r, w')" by (cases "get_queue_stream w")
  have "submitted w' = submitted w"
    using get_queue_stream_submitted [of w] g by simp
  then show ?case
    using g Suc.IH by (cases r) simp_all
qed

lemma ack_results_submitted: "submitted (snd (ack_results oks w)) = submitted w"
  by (induction oks arbitrary: w) (simp_all split: list.splits option.splits)

lemma flush_batch_sized: "sized_batches n w (snd (flush_batch n w))"
proof -
  obtain r w1 where c: "next_chunk n [] w = (r, w1)" by (cases "next_chunk n [] w")
  have s1: "submitted w1 = submitted w"
    using next_chunk_submitted [of n "[]" w] c by simp
  show ?thesis
  proof (cases r)
    case (Yield chunk)
    have len: "length chunk = n"
      using next_chunk_appends [of n "[]" w chunk w1] c Yield by auto
    obtain r2 w2 where s: "submit chunk w1 = (r2, w2)" by (cases "submit chunk w1")
    have s2: "submitted w2 = submitted w \<or> submitted w2 = submitted w @ [chunk]"
      using s s1 by (auto simp: submit_def split: list.splits reply.splits)
    have sz: "sized_batches n w w2"
      using s2 len by (auto simp: sized_batches_def)
    show ?thesis
    proof (cases r2)
      case (Yield oks)
      have "submitted (snd (ack_results oks w2)) = submitted w2"
        by (rule ack_results_submitted)
      then have "sized_batches n w (snd (ack_results oks w2))"
        using sz by (simp add: sized_batches_def)
      then show ?thesis
        using c \<open>r = Yield chunk\<close> s Yield by (simp add: flush_batch_def)
    qed (use c \<open>r = Yield chunk\<close> s sz in \<open>simp_all add: flush_batch_def\<close>)
  qed (use c s1 in \<open>simp_all add: flush_batch_def sized_batches_def\<close>)
qed

lemma for_response_in_bulker_sized:
  "sized_batches n w (snd (for_response_in_bulker n w))"
proof (induction n w rule: for_response_in_bulker.induct)
  case (1 n w)
  obtain r w1 where fb: "flush_batch n w = (r, w1)" by (cases "flush_batch n w")
  have b: "sized_batches n w w1"
    using flush_batch_sized [of n w] fb by simp
  show ?case
  proof (cases r)
    case (Yield u)
    have "sized_batches n w1 (snd (for_response_in_bulker n w1))"
      using "1.IH" fb Yield by simp
    then have "sized_batches n w (snd (for_response_in_bulker n w1))"
      using b sized_batches_trans by blast
    then show ?thesis
      using fb Yield by (subst for_response_in_bulker.simps) simp
  qed (use fb b in \<open>subst for_response_in_bulker.simps, simp\<close>)+
qed

lemma flush_to_es_sized: "sized_batches n w (snd (flush_to_es n w))"
proof (induction n w rule: flush_to_es.induct)
  case (1 n w)
  let ?w0 = "w\<lparr>ack_list := [], stream_open := False, log := log w @ [LogError ''Post flush'']\<rparr>"
  obtain r w' where loop: "for_response_in_bulker n ?w0 = (r, w')"
    by (cases "for_response_in_bulker n ?w0")
  have "sized_batches n ?w0 w'"
    using for_response_in_bulker_sized [of n ?w0] loop by simp
  then have b: "sized_batches n w w'" by (simp add: sized_batches_def)
  show ?case
  proof (cases r)
    case None
    then show ?thesis using loop b by (subst flush_to_es.simps) simp
  next
    case (Some ex)
    show ?thesis
    proof (cases "is_Exception ex")
      case True
      let ?w1 = "w'\<lparr>log := log w' @ [LogException ex]\<rparr>"
      have "sized_batches n ?w1 (snd (flush_to_es n ?w1))"
        using "1.IH" [OF loop [symmetric] Some True] .
      moreover have "sized_batches n w ?w1"
        using b by (simp add: sized_batches_def)
      ultimately have "sized_batches n w (snd (flush_to_es n ?w1))"
        using sized_batches_trans by blast
      then show ?thesis
        using loop Some True by (subst flush_to_es.simps) simp
    next
      case False
      then show ?thesis using loop Some b by (subst flush_to_es.simps) simp
    qed
  qed
qed

section \<open>Properties of the publisher\<close>

lemma getitem_is_Exception: "getitem v k = Inl ex \<Longrightarrow> is_Exception ex"
  by (cases v) (auto split: option.splits)

lemma routing_arguments_is_Exception:
  "routing_arguments message = Inl ex \<Longrightarrow> is_Exception ex"
  by (auto simp: routing_arguments_def split: sum.splits dest: getitem_is_Exception)

lemma routing_arguments_Inr:
  "routing_arguments message = Inr (index, doc_type) \<Longrightarrow>
   \<exists>d c. getitem message ''dreadfort'' = Inr d \<and> getitem d ''tenant'' = Inr index \<and>
     getitem d ''correlation'' = Inr c \<and> getitem c ''pattern'' = Inr doc_type"
  by (auto simp: routing_arguments_def split: sum.splits)

lemma queue_index_request_None:
  "queue_index_request TTL uuid4 b index doc_type document ttl s = (None, s') \<Longrightarrow>
   s' = s\<lparr>uuid_draws := Suc (uuid_draws s),
          channel := channel s @
            [[(''_index'', index), (''_type'', doc_type),
              (''_id'', PStr (uuid4 (uuid_draws s))),
              (''_ttl'', (case ttl of None \<Rightarrow> TTL | Some t \<Rightarrow> t)),
              (''_source'', document)]]\<rparr> \<and>
   connection_bound s \<and> es_queue_bound s \<and> acquire b = None \<and> publish b = None \<and>
   serializable document"
  by (auto simp: queue_index_request_def Let_def split: if_splits option.splits)

lemma queue_index_request_malformed:
  "\<not> serializable document \<Longrightarrow>
   \<exists>ex. queue_index_request TTL uuid4 b index doc_type document ttl s =
          (Some ex, s\<lparr>uuid_draws := Suc (uuid_draws s)\<rparr>) \<and>
        (ex = NameError \<or> ex = EncodeError \<or> acquire b = Some ex)"
  by (auto simp: queue_index_request_def Let_def split: if_splits option.splits)

text \<open>
  Claim C5 (malformed input), as the code has it. \<open>put_message\<close> has one handler for
  every \<^verbatim>\<open>Exception\<close>. When the message lacks the routing metadata, or is not
  JSON-serialisable, and the broker raises nothing outside \<^verbatim>\<open>Exception\<close>, the task
  logs the exception and calls \<^verbatim>\<open>put_message.retry()\<close>, as it does for every other
  failure; nothing is published. A missing routing field is the exception logged.
\<close>

theorem malformed_input_is_retried:
  assumes "routing_arguments message = Inl ex \<or> \<not> serializable message"
    and "case acquire b of None \<Rightarrow> True | Some e \<Rightarrow> is_Exception e"
  shows "\<exists>e s'. put_message TTL uuid4 b message s = (RetryRequested, s') \<and>
           publisher_log s' = publisher_log s @ [LogException e] \<and>
           channel s' = channel s \<and>
           (routing_arguments message = Inl ex \<longrightarrow> e = ex)"
proof (cases "routing_arguments message")
  case (Inl e)
  then have "is_Exception e" by (rule routing_arguments_is_Exception)
  then show ?thesis
    using Inl by (auto simp: put_message_def except_Exception_def)
next
  case (Inr args)
  obtain index doc_type where args: "args = (index, doc_type)" by (cases args)
  have "\<not> serializable message" using assms(1) Inr by simp
  from queue_index_request_malformed [OF this, of TTL uuid4 b index doc_type None s]
  obtain e where q: "queue_index_request TTL uuid4 b index doc_type message None s =
          (Some e, s\<lparr>uuid_draws := Suc (uuid_draws s)\<rparr>)"
    and e: "e = NameError \<or> e = EncodeError \<or> acquire b = Some e"
    by blast
  have "is_Exception e" using e assms(2) by auto
  then show ?thesis
    using Inr args q by (auto simp: put_message_def except_Exception_def)
qed

theorem malformed_input_is_retried_witness:
  "\<exists>e s'. put_message (PInt 86400) (\<lambda>n. replicate n CHR ''u'')
       \<lparr>acquire = None, publish = None\<rparr>
       (PDict [(''dreadfort'',
          PDict [(''tenant'', PStr ''acme''),
                 (''correlation'', PDict [(''pattern'', PStr ''login'')])]),
         (''when'', PObject ''datetime'')])
       \<lparr>connection_bound = True, es_queue_bound = True, uuid_draws = 0, channel = [],
        publisher_log = []\<rparr> = (RetryRequested, s') \<and>
     publisher_log s' = [LogException e] \<and> channel s' = []"
proof -
  have malformed: "routing_arguments (PDict [(''dreadfort'',
          PDict [(''tenant'', PStr ''acme''),
                 (''correlation'', PDict [(''pattern'', PStr ''login'')])]),
         (''when'', PObject ''datetime'')]) = Inl KeyError \<or>
      \<not> serializable (PDict [(''dreadfort'',
          PDict [(''tenant'', PStr ''acme''),
                 (''correlation'', PDict [(''pattern'', PStr ''login'')])]),
         (''when'', PObject ''datetime'')])"
    by simp
  have broker: "case acquire \<lparr>acquire = None, publish = None\<rparr> of
      None \<Rightarrow> True | Some e \<Rightarrow> is_Exception e"
    by simp
  from malformed_input_is_retried [OF malformed broker, of "PInt 86400"
      "\<lambda>n. replicate n CHR ''u''"
      "\<lparr>connection_bound = True, es_queue_bound = True, uuid_draws = 0, channel = [],
        publisher_log = []\<rparr>"]
  show ?thesis by auto
qed

text \<open>
  Claim C5 as stated fails: for a message without the key \<^verbatim>\<open>'dreadfort'\<close> the task
  does not let the \<open>KeyError\<close> reach its caller; it logs it and asks for a retry.
\<close>

theorem malformed_input_counterexample:
  "put_message (PInt 86400) (\<lambda>n. replicate n CHR ''u'')
     \<lparr>acquire = None, publish = None\<rparr>
     (PDict [(''msg'', PStr ''hello'')])
     \<lparr>connection_bound = True, es_queue_bound = True, uuid_draws = 0, channel = [],
      publisher_log = []\<rparr> =
   (RetryRequested,
    \<lparr>connection_bound = True, es_queue_bound = True, uuid_draws = 0, channel = [],
      publisher_log = [LogException KeyError]\<rparr>)"
  by (simp add: put_message_def routing_arguments_def except_Exception_def)

lemma getitem_serializable:
  "serializable v \<Longrightarrow> getitem v k = Inr x \<Longrightarrow> serializable x"
proof (cases v)
  case (PDict kvs)
  assume s: "serializable v" and g: "getitem v k = Inr x"
  have "map_of kvs k = Some x"
    using g PDict by (simp split: option.splits)
  then have "(k, x) \<in> set kvs" by (rule map_of_SomeD)
  then have "x \<in> set (map snd kvs)" by force
  then show ?thesis
    using s PDict by (auto simp: list_all_iff)
qed simp_all

lemma routing_arguments_value:
  assumes "getitem message ''dreadfort'' = Inr d" and "getitem d ''tenant'' = Inr index"
    and "getitem d ''correlation'' = Inr c" and "getitem c ''pattern'' = Inr doc_type"
  shows "routing_arguments message = Inr (index, doc_type)"
  using assms by (simp add: routing_arguments_def)

lemma queue_index_request_value:
  assumes "connection_bound s" and "es_queue_bound s"
    and "acquire b = None" and "publish b = None"
    and "serializable index" and "serializable doc_type" and "serializable document"
    and "serializable (case ttl of None \<Rightarrow> TTL | Some t \<Rightarrow> t)"
  shows "queue_index_request TTL uuid4 b index doc_type document ttl s =
     (None, s\<lparr>uuid_draws := Suc (uuid_draws s),
          channel := channel s @
            [[(''_index'', index), (''_type'', doc_type),
              (''_id'', PStr (uuid4 (uuid_draws s))),
              (''_ttl'', (case ttl of None \<Rightarrow> TTL | Some t \<Rightarrow> t)),
              (''_source'', document)]]\<rparr>)"
  using assms by (simp add: queue_index_request_def Let_def)

text \<open>
  Claim C7 (the published envelope). When the message carries its routing metadata and is
  JSON-serialisable, the module's names are bound and the broker accepts the publish,
  \<open>put_message\<close> returns and has added one action to the channel: a dictionary with the
  keys \<open>_index\<close>, \<open>_type\<close>, \<open>_id\<close>, \<open>_ttl\<close> and \<open>_source\<close> and no other, where
  \<open>_index\<close> is \<^verbatim>\<open>message['dreadfort']['tenant']\<close>, \<open>_type\<close> is
  \<^verbatim>\<open>message['dreadfort']['correlation']['pattern']\<close>, \<open>_id\<close> is the identifier drawn
  in the call, \<open>_ttl\<close> is the module's \<open>TTL\<close> and \<open>_source\<close> is the message itself. A
  call of \<open>_queue_index_request\<close> that supplies \<open>ttl\<close> publishes that value instead of
  \<open>TTL\<close>. And every call of \<open>put_message\<close> that returns has published such an action.
\<close>

theorem published_action_envelope:
  assumes "getitem message ''dreadfort'' = Inr d" and "getitem d ''tenant'' = Inr index"
    and "getitem d ''correlation'' = Inr c" and "getitem c ''pattern'' = Inr doc_type"
    and "serializable message" and "serializable TTL"
    and "connection_bound s" and "es_queue_bound s"
    and "acquire b = None" and "publish b = None"
  shows "put_message TTL uuid4 b message s =
           (Returned,
            s\<lparr>uuid_draws := Suc (uuid_draws s),
              channel := channel s @
                [[(''_index'', index), (''_type'', doc_type),
                  (''_id'', PStr (uuid4 (uuid_draws s))), (''_ttl'', TTL),
                  (''_source'', message)]]\<rparr>) \<and>
         map fst (last (channel (snd (put_message TTL uuid4 b message s)))) =
           [''_index'', ''_type'', ''_id'', ''_ttl'', ''_source''] \<and>
         (\<forall>t. serializable t \<longrightarrow>
            queue_index_request TTL uuid4 b index doc_type message (Some t) s =
              (None,
               s\<lparr>uuid_draws := Suc (uuid_draws s),
                 channel := channel s @
                   [[(''_index'', index), (''_type'', doc_type),
                     (''_id'', PStr (uuid4 (uuid_draws s))), (''_ttl'', t),
                     (''_source'', message)]]\<rparr>)) \<and>
         (\<forall>b' message' s1 s2. put_message TTL uuid4 b' message' s1 = (Returned, s2) \<longrightarrow>
            (\<exists>d' c' index' doc_type'.
               getitem message' ''dreadfort'' = Inr d' \<and> getitem d' ''tenant'' = Inr index' \<and>
               getitem d' ''correlation'' = Inr c' \<and> getitem c' ''pattern'' = Inr doc_type' \<and>
               channel s2 = channel s1 @
                 [[(''_index'', index'), (''_type'', doc_type'),
                   (''_id'', PStr (uuid4 (uuid_draws s1))), (''_ttl'', TTL),
                   (''_source'', message')]]))"
proof -
  have sd: "serializable d" using getitem_serializable [OF assms(5,1)] .
  have si: "serializable index" using getitem_serializable [OF sd assms(2)] .
  have sc: "serializable c" using getitem_serializable [OF sd assms(3)] .
  have st: "serializable doc_type" using getitem_serializable [OF sc assms(4)] .
  have r: "routing_arguments message = Inr (index, doc_type)"
    using routing_arguments_value [OF assms(1-4)] .
  have q: "queue_index_request TTL uuid4 b index doc_type message None s =
     (None, s\<lparr>uuid_draws := Suc (uuid_draws s),
          channel := channel s @
            [[(''_index'', index), (''_type'', doc_type),
              (''_id'', PStr (uuid4 (uuid_draws s))), (''_ttl'', TTL),
              (''_source'', message)]]\<rparr>)"
    using queue_index_request_value [OF assms(7-10) si st assms(5),
        where ttl = None and TTL = TTL]
      assms(6) by simp
  have returned: "put_message TTL uuid4 b message s =
           (Returned,
            s\<lparr>uuid_draws := Suc (uuid_draws s),
              channel := channel s @
                [[(''_index'', index), (''_type'', doc_type),
                  (''_id'', PStr (uuid4 (uuid_draws s))), (''_ttl'', TTL),
                  (''_source'', message)]]\<rparr>)"
    by (simp add: put_message_def r q)
  have keys: "map fst (last (channel (snd (put_message TTL uuid4 b message s)))) =
           [''_index'', ''_type'', ''_id'', ''_ttl'', ''_source'']"
    by (simp add: returned)
  have supplied: "\<forall>t. serializable t \<longrightarrow>
            queue_index_request TTL uuid4 b index doc_type message (Some t) s =
              (None,
               s\<lparr>uuid_draws := Suc (uuid_draws s),
                 channel := channel s @
                   [[(''_index'', index), (''_type'', doc_type),
                     (''_id'', PStr (uuid4 (uuid_draws s))), (''_ttl'', t),
                     (''_source'', message)]]\<rparr>)"
  proof (intro allI impI)
    fix t assume "serializable t"
    then show "queue_index_request TTL uuid4 b index doc_type message (Some t) s =
              (None,
               s\<lparr>uuid_draws := Suc (uuid_draws s),
                 channel := channel s @
                   [[(''_index'', index), (''_type'', doc_type),
                     (''_id'', PStr (uuid4 (uuid_draws s))), (''_ttl'', t),
                     (''_source'', message)]]\<rparr>)"
      using queue_index_request_value [OF assms(7-10) si st assms(5),
          where ttl = "Some t" and TTL = TTL]
      by simp
  qed
  have converse: "\<forall>b' message' s1 s2. put_message TTL uuid4 b' message' s1 = (Returned, s2) \<longrightarrow>
            (\<exists>d' c' index' doc_type'.
               getitem message' ''dreadfort'' = Inr d' \<and> getitem d' ''tenant'' = Inr index' \<and>
               getitem d' ''correlation'' = Inr c' \<and> getitem c' ''pattern'' = Inr doc_type' \<and>
               channel s2 = channel s1 @
                 [[(''_index'', index'), (''_type'', doc_type'),
                   (''_id'', PStr (uuid4 (uuid_draws s1))), (''_ttl'', TTL),
                   (''_source'', message')]])"
  proof (intro allI impI)
    fix b' message' s1 s2
    assume ret: "put_message TTL uuid4 b' message' s1 = (Returned, s2)"
    obtain index' doc_type' where r': "routing_arguments message' = Inr (index', doc_type')"
      using ret
      by (cases "routing_arguments message'")
        (auto simp: put_message_def except_Exception_def split: if_splits)
    have q': "queue_index_request TTL uuid4 b' index' doc_type' message' None s1 = (None, s2)"
      using ret r'
      by (cases "queue_index_request TTL uuid4 b' index' doc_type' message' None s1")
        (auto simp: put_message_def except_Exception_def split: if_splits option.splits)
    from routing_arguments_Inr [OF r'] obtain d' c' where
      g: "getitem message' ''dreadfort'' = Inr d'" "getitem d' ''tenant'' = Inr index'"
        "getitem d' ''correlation'' = Inr c'" "getitem c' ''pattern'' = Inr doc_type'"
      by blast
    have ch: "channel s2 = channel s1 @
               [[(''_index'', index'), (''_type'', doc_type'),
                 (''_id'', PStr (uuid4 (uuid_draws s1))), (''_ttl'', TTL),
                 (''_source'', message')]]"
      using queue_index_request_None [OF q'] by simp
    show "\<exists>d' c' index' doc_type'.
               getitem message' ''dreadfort'' = Inr d' \<and> getitem d' ''tenant'' = Inr index' \<and>
               getitem d' ''correlation'' = Inr c' \<and> getitem c' ''pattern'' = Inr doc_type' \<and>
               channel s2 = channel s1 @
                 [[(''_index'', index'), (''_type'', doc_type'),
                   (''_id'', PStr (uuid4 (uuid_draws s1))), (''_ttl'', TTL),
                   (''_source'', message')]]"
      using g ch by blast
  qed
  show ?thesis
    using returned keys supplied converse by blast
qed

theorem published_action_envelope_witness:
  "put_message (PInt 86400) (\<lambda>n. replicate n CHR ''u'')
     \<lparr>acquire = None, publish = None\<rparr>
     (PDict [(''dreadfort'',
        PDict [(''tenant'', PStr ''acme''),
               (''correlation'', PDict [(''pattern'', PStr ''login'')])]),
       (''msg'', PStr ''hello'')])
     \<lparr>connection_bound = True, es_queue_bound = True, uuid_draws = 0, channel = [],
      publisher_log = []\<rparr> =
   (Returned,
    \<lparr>connection_bound = True, es_queue_bound = True, uuid_draws = Suc 0,
      channel = [[(''_index'', PStr ''acme''), (''_type'', PStr ''login''),
        (''_id'', PStr []), (''_ttl'', PInt 86400),
        (''_source'', PDict [(''dreadfort'',
            PDict [(''tenant'', PStr ''acme''),
               (''correlation'', PDict [(''pattern'', PStr ''login'')])]),
           (''msg'', PStr ''hello'')])]],
      publisher_log = []\<rparr>)"
proof -
  have g1: "getitem (PDict [(''dreadfort'',
        PDict [(''tenant'', PStr ''acme''),
               (''correlation'', PDict [(''pattern'', PStr ''login'')])]),
       (''msg'', PStr ''hello'')]) ''dreadfort'' =
      Inr (PDict [(''tenant'', PStr ''acme''),
               (''correlation'', PDict [(''pattern'', PStr ''login'')])])"
    by simp
  have g2: "getitem (PDict [(''tenant'', PStr ''acme''),
               (''correlation'', PDict [(''pattern'', PStr ''login'')])]) ''tenant'' =
      Inr (PStr ''acme'')"
    by simp
  have g3: "getitem (PDict [(''tenant'', PStr ''acme''),
               (''correlation'', PDict [(''pattern'', PStr ''login'')])]) ''correlation'' =
      Inr (PDict [(''pattern'', PStr ''login'')])"
    by simp
  have g4: "getitem (PDict [(''pattern'', PStr ''login'')]) ''pattern'' = Inr (PStr ''login'')"
    by simp
  have sm: "serializable (PDict [(''dreadfort'',
        PDict [(''tenant'', PStr ''acme''),
               (''correlation'', PDict [(''pattern'', PStr ''login'')])]),
       (''msg'', PStr ''hello'')])"
    by simp
  have sttl: "serializable (PInt 86400)" by simp
  have cb: "connection_bound \<lparr>connection_bound = True, es_queue_bound = True,
      uuid_draws = 0, channel = [], publisher_log = []\<rparr>"
    by simp
  have qb: "es_queue_bound \<lparr>connection_bound = True, es_queue_bound = True,
      uuid_draws = 0, channel = [], publisher_log = []\<rparr>"
    by simp
  have ba: "acquire \<lparr>acquire = None, publish = None\<rparr> = None" by simp
  have bp: "publish \<lparr>acquire = None, publish = None\<rparr> = None" by simp
  from published_action_envelope [OF g1 g2 g3 g4 sm sttl cb qb ba bp,
      of "\<lambda>n. replicate n CHR ''u''"]
  show ?thesis by simp
qed

lemma put_message_cases:
  "put_message TTL uuid4 b message s = (r, s') \<Longrightarrow>
   (r = Returned \<and>
      (\<exists>index doc_type. s' = s\<lparr>uuid_draws := Suc (uuid_draws s),
          channel := channel s @
            [[(''_index'', index), (''_type'', doc_type),
              (''_id'', PStr (uuid4 (uuid_draws s))), (''_ttl'', TTL),
              (''_source'', message)]]\<rparr>)) \<or>
   (r \<noteq> Returned \<and> channel s' = channel s \<and> uuid_draws s \<le> uuid_draws s')"
  by (auto simp: put_message_def except_Exception_def queue_index_request_def Let_def
      split: sum.splits option.splits if_splits prod.splits)

lemma put_message_ids_fresh:
  assumes "ids_fresh uuid4 s"
  shows "ids_fresh uuid4 (snd (put_message TTL uuid4 b message s))"
proof -
  obtain r s' where p: "put_message TTL uuid4 b message s = (r, s')"
    by (cases "put_message TTL uuid4 b message s")
  from assms obtain ks where ks:
    "map (\<lambda>action. map_of action ''_id'') (channel s) = map (\<lambda>k. Some (PStr (uuid4 k))) ks"
    "distinct ks" "\<forall>k \<in> set ks. k < uuid_draws s"
    by (auto simp: ids_fresh_def)
  from put_message_cases [OF p] show ?thesis
  proof
    assume "r = Returned \<and>
      (\<exists>index doc_type. s' = s\<lparr>uuid_draws := Suc (uuid_draws s),
          channel := channel s @
            [[(''_index'', index), (''_type'', doc_type),
              (''_id'', PStr (uuid4 (uuid_draws s))), (''_ttl'', TTL),
              (''_source'', message)]]\<rparr>)"
    then obtain index doc_type where s': "s' = s\<lparr>uuid_draws := Suc (uuid_draws s),
          channel := channel s @
            [[(''_index'', index), (''_type'', doc_type),
              (''_id'', PStr (uuid4 (uuid_draws s))), (''_ttl'', TTL),
              (''_source'', message)]]\<rparr>"
      by blast
    have "map (\<lambda>action. map_of action ''_id'') (channel s') =
        map (\<lambda>k. Some (PStr (uuid4 k))) (ks @ [uuid_draws s])"
      using s' ks(1) by simp
    moreover have "distinct (ks @ [uuid_draws s])"
      using ks(2,3) by auto
    moreover have "\<forall>k \<in> set (ks @ [uuid_draws s]). k < uuid_draws s'"
      using ks(3) s' by auto
    ultimately show ?thesis
      unfolding ids_fresh_def p snd_conv by blast
  next
    assume "r \<noteq> Returned \<and> channel s' = channel s \<and> uuid_draws s \<le> uuid_draws s'"
    then show ?thesis
      unfolding ids_fresh_def p snd_conv using ks by (intro exI [of _ ks]) auto
  qed
qed

lemma put_messages_ids_fresh:
  "ids_fresh uuid4 s \<Longrightarrow> ids_fresh uuid4 (put_messages TTL uuid4 calls s)"
proof (induction calls arbitrary: s)
  case Nil
  then show ?case by simp
next
  case (Cons call calls)
  obtain b message where call: "call = (b, message)" by (cases call)
  show ?case
    using Cons.IH [OF put_message_ids_fresh [OF Cons.prems]] call by simp
qed

lemma ids_fresh_distinct:
  assumes "inj uuid4" and "ids_fresh uuid4 s"
  shows "distinct (map (\<lambda>action. map_of action ''_id'') (channel s))"
proof -
  from assms(2) obtain ks where ks:
    "map (\<lambda>action. map_of action ''_id'') (channel s) = map (\<lambda>k. Some (PStr (uuid4 k))) ks"
    "distinct ks"
    by (auto simp: ids_fresh_def)
  have "inj (\<lambda>k. Some (PStr (uuid4 k)))"
    using assms(1) by (auto simp: inj_def)
  then show ?thesis
    using ks by (simp add: distinct_map inj_on_def inj_def)
qed

lemma module_init_ids_fresh:
  "ids_fresh uuid4 (snd (module_init connect declare))"
  by (auto simp: module_init_def ids_fresh_def Let_def split: option.splits)

text \<open>
  Claim C6 (the action identifier). The identifier is drawn inside
  \<open>_queue_index_request\<close>, when the action is built for publishing: a call of
  \<open>put_message\<close> that returns has published an action whose \<open>_id\<close> is the draw made
  during that call, and has advanced the count of draws by one. So, \<^verbatim>\<open>uuid.uuid4()\<close>
  never giving the same identifier twice (\<open>inj uuid4\<close>), the actions published by any
  sequence of calls, retried calls with the same message included, have distinct
  identifiers.
\<close>

theorem action_ids_distinct:
  assumes "inj uuid4"
  shows "distinct (map (\<lambda>action. map_of action ''_id'')
           (channel (put_messages TTL uuid4 calls (snd (module_init connect declare))))) \<and>
         (\<forall>b message s s'. put_message TTL uuid4 b message s = (Returned, s') \<longrightarrow>
            map_of (last (channel s')) ''_id'' = Some (PStr (uuid4 (uuid_draws s))) \<and>
            uuid_draws s' = Suc (uuid_draws s))"
proof
  show "distinct (map (\<lambda>action. map_of action ''_id'')
           (channel (put_messages TTL uuid4 calls (snd (module_init connect declare)))))"
    using ids_fresh_distinct [OF assms put_messages_ids_fresh [OF module_init_ids_fresh]] .
next
  show "\<forall>b message s s'. put_message TTL uuid4 b message s = (Returned, s') \<longrightarrow>
            map_of (last (channel s')) ''_id'' = Some (PStr (uuid4 (uuid_draws s))) \<and>
            uuid_draws s' = Suc (uuid_draws s)"
  proof (intro allI impI)
    fix b message s s'
    assume "put_message TTL uuid4 b message s = (Returned, s')"
    from put_message_cases [OF this]
    show "map_of (last (channel s')) ''_id'' = Some (PStr (uuid4 (uuid_draws s))) \<and>
            uuid_draws s' = Suc (uuid_draws s)"
      by auto
  qed
qed

lemma inj_replicate_u: "inj (\<lambda>n. replicate n CHR ''u'')"
proof (rule injI)
  fix x y :: nat
  assume "replicate x CHR ''u'' = replicate y CHR ''u''"
  then have "length (replicate x CHR ''u'') = length (replicate y CHR ''u'')" by simp
  then show "x = y" by simp
qed

theorem action_ids_distinct_witness:
  "inj (\<lambda>n. replicate n CHR ''u'') \<and>
   map (\<lambda>action. map_of action ''_id'')
     (channel (put_messages (PInt 86400) (\<lambda>n. replicate n CHR ''u'')
        [(\<lparr>acquire = None, publish = None\<rparr>,
          PDict [(''dreadfort'', PDict [(''tenant'', PStr ''acme''),
             (''correlation'', PDict [(''pattern'', PStr ''login'')])])]),
         (\<lparr>acquire = None, publish = None\<rparr>,
          PDict [(''dreadfort'', PDict [(''tenant'', PStr ''acme''),
             (''correlation'', PDict [(''pattern'', PStr ''login'')])])])]
        (snd (module_init None None)))) = [Some (PStr ''''), Some (PStr ''u'')] \<and>
   distinct (map (\<lambda>action. map_of action ''_id'')
     (channel (put_messages (PInt 86400) (\<lambda>n. replicate n CHR ''u'')
        [(\<lparr>acquire = None, publish = None\<rparr>,
          PDict [(''dreadfort'', PDict [(''tenant'', PStr ''acme''),
             (''correlation'', PDict [(''pattern'', PStr ''login'')])])]),
         (\<lparr>acquire = None, publish = None\<rparr>,
          PDict [(''dreadfort'', PDict [(''tenant'', PStr ''acme''),
             (''correlation'', PDict [(''pattern'', PStr ''login'')])])])]
        (snd (module_init None None)))))"
proof -
  have ids: "map (\<lambda>action. map_of action ''_id'')
     (channel (put_messages (PInt 86400) (\<lambda>n. replicate n CHR ''u'')
        [(\<lparr>acquire = None, publish = None\<rparr>,
          PDict [(''dreadfort'', PDict [(''tenant'', PStr ''acme''),
             (''correlation'', PDict [(''pattern'', PStr ''login'')])])]),
         (\<lparr>acquire = None, publish = None\<rparr>,
          PDict [(''dreadfort'', PDict [(''tenant'', PStr ''acme''),
             (''correlation'', PDict [(''pattern'', PStr ''login'')])])])]
        (snd (module_init None None)))) = [Some (PStr ''''), Some (PStr ''u'')]"
    by (simp add: put_message_def routing_arguments_def queue_index_request_def
        module_init_def)
  show ?thesis
    using inj_replicate_u action_ids_distinct [OF inj_replicate_u, of "PInt 86400"
      "[(\<lparr>acquire = None, publish = None\<rparr>,
          PDict [(''dreadfort'', PDict [(''tenant'', PStr ''acme''),
             (''correlation'', PDict [(''pattern'', PStr ''login'')])])]),
         (\<lparr>acquire = None, publish = None\<rparr>,
          PDict [(''dreadfort'', PDict [(''tenant'', PStr ''acme''),
             (''correlation'', PDict [(''pattern'', PStr ''login'')])])])]" None None] ids
    by blast
qed

lemma put_message_degraded:
  assumes "\<not> es_queue_bound s"
  shows "fst (put_message TTL uuid4 b message s) \<noteq> Returned \<and>
         \<not> es_queue_bound (snd (put_message TTL uuid4 b message s)) \<and>
         channel (snd (put_message TTL uuid4 b message s)) = channel s"
  using assms
  by (auto simp: put_message_def except_Exception_def queue_index_request_def Let_def
      split: sum.splits option.splits if_splits prod.splits)

lemma put_message_degraded_retry:
  assumes "\<not> es_queue_bound s" and "acquire b = None"
  shows "fst (put_message TTL uuid4 b message s) = RetryRequested"
proof (cases "routing_arguments message")
  case (Inl ex)
  then show ?thesis
    using routing_arguments_is_Exception [OF Inl]
    by (simp add: put_message_def except_Exception_def)
next
  case (Inr args)
  then show ?thesis
    using assms
    by (cases args) (simp add: put_message_def except_Exception_def queue_index_request_def Let_def)
qed

lemma put_message_degraded_logged:
  assumes "\<not> es_queue_bound s" and "acquire b = None"
  shows "\<exists>e. publisher_log (snd (put_message TTL uuid4 b message s)) =
           publisher_log s @ [LogException e]"
proof (cases "routing_arguments message")
  case (Inl ex)
  then show ?thesis
    using routing_arguments_is_Exception [OF Inl]
    by (simp add: put_message_def except_Exception_def)
next
  case (Inr args)
  then show ?thesis
    using assms
    by (cases args) (simp add: put_message_def except_Exception_def queue_index_request_def Let_def)
qed

lemma put_messages_degraded:
  "\<not> es_queue_bound s \<Longrightarrow> channel (put_messages TTL uuid4 calls s) = channel s"
proof (induction calls arbitrary: s)
  case Nil
  then show ?case by simp
next
  case (Cons call calls)
  obtain b message where call: "call = (b, message)" by (cases call)
  have d: "\<not> es_queue_bound (snd (put_message TTL uuid4 b message s))"
    and c: "channel (snd (put_message TTL uuid4 b message s)) = channel s"
    using put_message_degraded [OF Cons.prems] by simp_all
  show ?case
    using Cons.IH [OF d] c call by simp
qed

text \<open>
  Claim C9 (a failed declaration at startup), as the code has it. When
  \<^verbatim>\<open>Connection(broker_url)\<close> or the declaration raises an \<^verbatim>\<open>Exception\<close>, the
  exception is logged and the import completes, with \<^verbatim>\<open>es_queue\<close> unbound. From
  then on no call of \<open>put_message\<close> returns or publishes anything, whatever the message
  and the broker; with a reachable broker each call is logged and asks for a retry. The
  stream reader does not use the module-level names: a pull yields whenever the broker
  delivers a message.
\<close>

theorem declaration_failure_degrades:
  assumes "is_Exception ex"
    and "connect = Some ex \<or> (connect = None \<and> declare = Some ex)"
  shows "\<exists>s0. module_init connect declare = (None, s0) \<and>
           publisher_log s0 = [LogException ex] \<and>
           (\<forall>TTL uuid4 b message. fst (put_message TTL uuid4 b message s0) \<noteq> Returned) \<and>
           (\<forall>TTL uuid4 b message. acquire b = None \<longrightarrow>
              fst (put_message TTL uuid4 b message s0) = RetryRequested) \<and>
           (\<forall>TTL uuid4 b message. acquire b = None \<longrightarrow>
              (\<exists>e. publisher_log (snd (put_message TTL uuid4 b message s0)) =
                 [LogException ex, LogException e])) \<and>
           (\<forall>TTL uuid4 calls. channel (put_messages TTL uuid4 calls s0) = []) \<and>
           (\<forall>(w :: 'p worker) msg rest. pulls w = Delivered msg # rest \<longrightarrow>
              fst (get_queue_stream w) = Yield (payload msg))"
proof -
  obtain s0 where s0: "module_init connect declare = (None, s0)"
    and lg: "publisher_log s0 = [LogException ex]"
    and q: "\<not> es_queue_bound s0" and ch: "channel s0 = []"
    using assms by (auto simp: module_init_def Let_def)
  have pull: "fst (get_queue_stream w) = Yield (payload msg)"
    if "pulls w = Delivered msg # rest" for w :: "'p worker" and msg rest
    using get_queue_stream_Delivered [OF that] by simp
  have logged: "\<exists>e. publisher_log (snd (put_message TTL uuid4 b message s0)) =
      [LogException ex, LogException e]"
    if "acquire b = None" for TTL uuid4 b message
    using put_message_degraded_logged [OF q that, of TTL uuid4 message] lg by simp
  show ?thesis
    using s0 lg put_message_degraded [OF q] put_message_degraded_retry [OF q]
      put_messages_degraded [OF q] ch pull logged
    by (intro exI [of _ s0]) simp
qed

theorem declaration_failure_degrades_witness:
  "module_init None (Some ConnectionError) =
     (None, \<lparr>connection_bound = True, es_queue_bound = False, uuid_draws = 0, channel = [],
        publisher_log = [LogException ConnectionError]\<rparr>) \<and>
   fst (put_message (PInt 86400) (\<lambda>n. replicate n CHR ''u'')
      \<lparr>acquire = None, publish = None\<rparr>
      (PDict [(''dreadfort'', PDict [(''tenant'', PStr ''acme''),
             (''correlation'', PDict [(''pattern'', PStr ''login'')])])])
      \<lparr>connection_bound = True, es_queue_bound = False, uuid_draws = 0, channel = [],
        publisher_log = [LogException ConnectionError]\<rparr>) = RetryRequested"
proof -
  have caught: "is_Exception ConnectionError" by simp
  have failed: "(None :: exn option) = Some ConnectionError \<or>
      ((None :: exn option) = None \<and> Some ConnectionError = Some ConnectionError)"
    by simp
  have init: "module_init None (Some ConnectionError) =
     (None, \<lparr>connection_bound = True, es_queue_bound = False, uuid_draws = 0, channel = [],
        publisher_log = [LogException ConnectionError]\<rparr>)"
    by (simp add: module_init_def)
  from declaration_failure_degrades [OF caught failed] init
  show ?thesis by auto
qed

text \<open>
  Claim C9 as stated fails for the pulls: after a declaration that failed at startup, the
  stream reader opens its own connection and a pull yields the message the broker delivers.
\<close>

theorem declaration_failure_counterexample:
  "module_init None (Some ConnectionError) =
     (None, \<lparr>connection_bound = True, es_queue_bound = False, uuid_draws = 0, channel = [],
        publisher_log = [LogException ConnectionError]\<rparr>) \<and>
   get_queue_stream
     \<lparr>pulls = [Delivered (Message 1 ''doc'')], replies = [], ack_raises = [], ack_list = [],
      stream_open = False, connections = 0, acked = [], submitted = [], log = []\<rparr> =
   (Yield ''doc'',
    \<lparr>pulls = [], replies = [], ack_raises = [], ack_list = [Message 1 ''doc''],
      stream_open = True, connections = 1, acked = [], submitted = [], log = []\<rparr>)"
  by (simp add: module_init_def get_queue_stream_def enter_Connection_def)

section \<open>Properties of the worker pool\<close>

text \<open>
  Claim C8 (the worker pool). \<open>start\<close> leaves as many processes as \<^verbatim>\<open>cpu_count()\<close>
  returned; each has the target \<open>flush_to_es\<close> and has been started, so each runs the
  flush loop on its own worker state.
\<close>

theorem start_spawns_processes:
  "length (start self cpu_count) = cpu_count \<and>
   map target (start self cpu_count) = replicate cpu_count Flush_to_es \<and>
   map started (start self cpu_count) = replicate cpu_count True \<and>
   map (\<lambda>p. run BULK_SIZE p w) (start self cpu_count) =
     replicate cpu_count (Some (flush_to_es BULK_SIZE w))"
  by (simp add: start_def run_def map_replicate_const)

text \<open>
  Claim C10 (\<open>bulk_size\<close> is not read). The constructor stores the \<open>bulk_size\<close> it is
  given, but whatever it is given, and also when it is given none, \<open>start\<close> leaves the
  same processes; each of them runs the flush loop with the module's \<open>BULK_SIZE\<close>, and
  every batch the loop sends to the backend holds \<open>BULK_SIZE\<close> documents.
\<close>

theorem bulk_size_not_read:
  "bulk_size (init d (Some b)) = b \<and>
   start (init d (Some b)) cpu_count = start (init d (Some b')) cpu_count \<and>
   start (init d (Some b)) cpu_count = start (init d None) cpu_count \<and>
   map (\<lambda>p. run BULK_SIZE p w) (start (init d (Some b)) cpu_count) =
     replicate cpu_count (Some (flush_to_es BULK_SIZE w)) \<and>
   list_all (\<lambda>chunk. length chunk = BULK_SIZE)
     (drop (length (submitted w)) (submitted (snd (flush_to_es BULK_SIZE w))))"
  using flush_to_es_sized [of BULK_SIZE w]
  by (simp add: start_def run_def init_def map_replicate_const sized_batches_def)

end
